theory Spec2Isabelle
  imports Main
begin

unbundle bit_operations_syntax

section \<open>Python values, exceptions and loops\<close>

text \<open>
  The generator of \<^verbatim>\<open>backend/qr_generator.py\<close> is a Python class whose methods mutate
  the object. A method is modelled as a function from the object state to an outcome: the
  exception raised together with the state at that moment, or the state on return.
  Python integers are unbounded and are modelled by \<^typ>\<open>int\<close>.
\<close>

datatype error = ValueError | UnicodeEncodeError | KeyError | IndexError | TypeError
  | ZeroDivisionError

datatype 's outcome = Raised error 's | Returned 's

fun then_run :: "'s outcome \<Rightarrow> ('s \<Rightarrow> 's outcome) \<Rightarrow> 's outcome" where
  "then_run (Raised e s) f = Raised e s"
| "then_run (Returned s) f = f s"

text \<open>A \<^verbatim>\<open>for\<close> loop over a list of values; an exception in the body leaves the loop.\<close>

fun for_each :: "'a list \<Rightarrow> ('a \<Rightarrow> 's \<Rightarrow> 's outcome) \<Rightarrow> 's \<Rightarrow> 's outcome" where
  "for_each [] body s = Returned s"
| "for_each (x # xs) body s =
     (case body x s of Raised e s' \<Rightarrow> Raised e s' | Returned s' \<Rightarrow> for_each xs body s')"

text \<open>\<^verbatim>\<open>range(a, b)\<close> and \<^verbatim>\<open>range(start, stop, step)\<close> for a non-zero step.\<close>

definition py_range :: "int \<Rightarrow> int \<Rightarrow> int list" where
  "py_range a b = [a..b - 1]"

function range_step :: "int \<Rightarrow> int \<Rightarrow> int \<Rightarrow> int list" where
  "range_step start stop step =
     (if (0 < step \<and> start < stop) \<or> (step < 0 \<and> stop < start)
      then start # range_step (start + step) stop step else [])"
  by pat_completeness auto
termination
  by (relation "measure (\<lambda>(start, stop, step).
        nat (if 0 < step then stop - start else start - stop))") auto

declare range_step.simps [simp del]

text \<open>
  Indexing a Python list of length \<open>n\<close> with \<open>i\<close>: a negative index counts from the end,
  and an index outside the list raises \<^verbatim>\<open>IndexError\<close> (no position).
\<close>

definition py_index :: "nat \<Rightarrow> int \<Rightarrow> nat option" where
  "py_index n i =
     (let j = (if i < 0 then i + int n else i)
      in if 0 \<le> j \<and> j < int n then Some (nat j) else None)"

text \<open>
  \<^verbatim>\<open>str.encode('utf-8')\<close> on a string given as its list of code points
  (\<open>0 .. 0x10FFFF\<close>). A surrogate code point is rejected by the codec.
\<close>

definition utf8_char :: "int \<Rightarrow> int list" where
  "utf8_char cp =
     (if cp < 0x80 then [cp]
      else if cp < 0x800 then [0xC0 + cp div 64, 0x80 + cp mod 64]
      else if cp < 0x10000 then [0xE0 + cp div 4096, 0x80 + (cp div 64) mod 64, 0x80 + cp mod 64]
      else [0xF0 + cp div 262144, 0x80 + (cp div 4096) mod 64, 0x80 + (cp div 64) mod 64,
            0x80 + cp mod 64])"

fun utf8_encode :: "int list \<Rightarrow> error + int list" where
  "utf8_encode [] = Inr []"
| "utf8_encode (cp # cps) =
     (if 0xD800 \<le> cp \<and> cp \<le> 0xDFFF then Inl UnicodeEncodeError
      else case utf8_encode cps of Inl e \<Rightarrow> Inl e | Inr bs \<Rightarrow> Inr (utf8_char cp @ bs))"

section \<open>The generator object\<close>

datatype ErrorCorrectionLevel = L | M | Q | H

text \<open>
  \<open>modules\<close> is \<^verbatim>\<open>None\<close> until \<^verbatim>\<open>make\<close> allocates the grid. A module holds a Python
  truth value: the source stores \<^verbatim>\<open>True\<close>/\<^verbatim>\<open>False\<close> and the bits \<^verbatim>\<open>1\<close>/\<^verbatim>\<open>0\<close>, which Python
  identifies (\<^verbatim>\<open>1 == True\<close>); the model stores the truth value.
\<close>

record QRGenerator =
  version :: int
  error_correction :: ErrorCorrectionLevel
  modules :: "bool list list option"
  module_count :: int
  data :: "int list"

definition init :: "int \<Rightarrow> ErrorCorrectionLevel \<Rightarrow> QRGenerator" where
  "init v ecl =
     \<lparr>version = v, error_correction = ecl, modules = None, module_count = 0, data = []\<rparr>"

fun data_capacity :: "int \<Rightarrow> int \<Rightarrow> int \<Rightarrow> int \<Rightarrow> ErrorCorrectionLevel \<Rightarrow> int" where
  "data_capacity l m q h L = l"
| "data_capacity l m q h M = m"
| "data_capacity l m q h Q = q"
| "data_capacity l m q h H = h"

text \<open>The table \<^verbatim>\<open>version_info\<close>: size and capacity per level of each version.\<close>

definition version_info :: "int \<rightharpoonup> int \<times> (ErrorCorrectionLevel \<Rightarrow> int)" where
  "version_info =
     [1 \<mapsto> (21, data_capacity 152 128 104 72),
      2 \<mapsto> (25, data_capacity 272 224 176 128),
      3 \<mapsto> (29, data_capacity 440 352 272 208),
      4 \<mapsto> (33, data_capacity 640 512 384 288),
      5 \<mapsto> (37, data_capacity 864 688 496 368)]"

definition add_data :: "int list \<Rightarrow> QRGenerator \<Rightarrow> QRGenerator" where
  "add_data d s = s\<lparr>data := d\<rparr>"

subsection \<open>Version selection\<close>

fun optimize_loop :: "int list \<Rightarrow> int \<Rightarrow> ErrorCorrectionLevel \<Rightarrow> int option" where
  "optimize_loop [] data_length error_level = None"
| "optimize_loop (v # vs) data_length error_level =
     (case version_info v of
        None \<Rightarrow> optimize_loop vs data_length error_level
      | Some (sz, capacity) \<Rightarrow>
          if data_length \<le> capacity error_level then Some v
          else optimize_loop vs data_length error_level)"

definition optimize_version :: "QRGenerator \<Rightarrow> QRGenerator outcome" where
  "optimize_version s =
     (case utf8_encode (data s) of
        Inl e \<Rightarrow> Raised e s
      | Inr data_bytes \<Rightarrow>
          (case optimize_loop (py_range 1 6) (int (length data_bytes)) (error_correction s) of
             Some v \<Rightarrow> Returned (s\<lparr>version := v\<rparr>)
           | None \<Rightarrow> Returned (s\<lparr>version := 5\<rparr>)))"

subsection \<open>Reading and writing a module\<close>

definition get_module :: "QRGenerator \<Rightarrow> int \<Rightarrow> int \<Rightarrow> error + bool" where
  "get_module s row col =
     (case modules s of
        None \<Rightarrow> Inl TypeError
      | Some g \<Rightarrow>
          (case py_index (length g) row of
             None \<Rightarrow> Inl IndexError
           | Some i \<Rightarrow>
               (case py_index (length (g ! i)) col of
                  None \<Rightarrow> Inl IndexError
                | Some j \<Rightarrow> Inr (g ! i ! j))))"

definition set_module :: "int \<Rightarrow> int \<Rightarrow> bool \<Rightarrow> QRGenerator \<Rightarrow> QRGenerator outcome" where
  "set_module row col v s =
     (case modules s of
        None \<Rightarrow> Raised TypeError s
      | Some g \<Rightarrow>
          (case py_index (length g) row of
             None \<Rightarrow> Raised IndexError s
           | Some i \<Rightarrow>
               (case py_index (length (g ! i)) col of
                  None \<Rightarrow> Raised IndexError s
                | Some j \<Rightarrow> Returned (s\<lparr>modules := Some (g[i := (g ! i)[j := v]])\<rparr>))))"

subsection \<open>Function patterns\<close>

definition finder_cell :: "int \<Rightarrow> int \<Rightarrow> int \<Rightarrow> int \<Rightarrow> QRGenerator \<Rightarrow> QRGenerator outcome" where
  "finder_cell row col r c s =
     (if ((r = 0 \<or> r = 6) \<and> (0 \<le> c \<and> c \<le> 6)) \<or> ((c = 0 \<or> c = 6) \<and> (0 \<le> r \<and> r \<le> 6))
         \<or> (2 \<le> r \<and> r \<le> 4 \<and> 2 \<le> c \<and> c \<le> 4)
      then if 0 \<le> row + r \<and> row + r < module_count s \<and> 0 \<le> col + c \<and> col + c < module_count s
           then set_module (row + r) (col + c) True s
           else Returned s
      else Returned s)"

definition place_finder_patterns :: "QRGenerator \<Rightarrow> QRGenerator outcome" where
  "place_finder_patterns s =
     for_each [(0, 0), (module_count s - 7, 0), (0, module_count s - 7)]
       (\<lambda>(row, col). for_each (py_range 0 7) (\<lambda>r. for_each (py_range 0 7) (finder_cell row col r)))
       s"

definition separator_cell :: "int \<Rightarrow> int \<Rightarrow> int \<Rightarrow> int \<Rightarrow> QRGenerator \<Rightarrow> QRGenerator outcome" where
  "separator_cell row col r c s =
     (if row + r < module_count s \<and> col + c < module_count s
      then if r = 7 \<or> c = 7 then set_module (row + r) (col + c) False s else Returned s
      else Returned s)"

definition place_separators :: "QRGenerator \<Rightarrow> QRGenerator outcome" where
  "place_separators s =
     for_each [(0, 0), (module_count s - 7, 0), (0, module_count s - 7)]
       (\<lambda>(row, col). for_each (py_range 0 8) (\<lambda>r. for_each (py_range 0 8) (separator_cell row col r)))
       s"

definition timing_step :: "int \<Rightarrow> QRGenerator \<Rightarrow> QRGenerator outcome" where
  "timing_step i s =
     then_run (set_module 6 i (i mod 2 = 0) s) (set_module i 6 (i mod 2 = 0))"

definition place_timing_patterns :: "QRGenerator \<Rightarrow> QRGenerator outcome" where
  "place_timing_patterns s = for_each (py_range 8 (module_count s - 8)) timing_step s"

definition place_dark_module :: "QRGenerator \<Rightarrow> QRGenerator outcome" where
  "place_dark_module s =
     (if 21 < module_count s then set_module (4 * version s + 9) 8 True s else Returned s)"

fun error_level_bits :: "ErrorCorrectionLevel \<Rightarrow> int" where
  "error_level_bits L = 1"
| "error_level_bits M = 0"
| "error_level_bits Q = 3"
| "error_level_bits H = 2"

definition generate_format_info :: "QRGenerator \<Rightarrow> int" where
  "generate_format_info s =
     (let mask_pattern = 0
      in push_bit 3 (error_level_bits (error_correction s)) OR mask_pattern)"

text \<open>A guarded assignment \<^verbatim>\<open>if b: self.modules[row][col] = v\<close>.\<close>

definition set_if :: "bool \<Rightarrow> int \<Rightarrow> int \<Rightarrow> bool \<Rightarrow> QRGenerator \<Rightarrow> QRGenerator outcome" where
  "set_if b row col v s = (if b then set_module row col v s else Returned s)"

definition format_step :: "int \<Rightarrow> int \<Rightarrow> QRGenerator \<Rightarrow> QRGenerator outcome" where
  "format_step format_info i s =
     (let bit = (drop_bit (nat i) format_info AND 1) \<noteq> 0; n = module_count s
      in if i < 6 then
           then_run (set_if (8 < n \<and> i < n) 8 i bit s)
             (set_if (n - 1 - i \<ge> 0 \<and> 8 < n) (n - 1 - i) 8 bit)
         else if i < 8 then
           then_run (set_if (8 < n \<and> i + 1 < n) 8 (i + 1) bit s)
             (set_if (n - 7 + i \<ge> 0 \<and> n - 7 + i < n \<and> 8 < n) (n - 7 + i) 8 bit)
         else if i < 9 then
           then_run (set_if (7 < n \<and> 8 < n) 7 8 bit s)
             (set_if (8 < n \<and> n - 8 \<ge> 0) 8 (n - 8) bit)
         else
           then_run (set_if (14 - i \<ge> 0 \<and> 8 < n) (14 - i) 8 bit s)
             (set_if (8 < n \<and> n - 15 + i \<ge> 0 \<and> n - 15 + i < n) 8 (n - 15 + i) bit))"

definition place_format_info :: "QRGenerator \<Rightarrow> QRGenerator outcome" where
  "place_format_info s = for_each (py_range 0 15) (format_step (generate_format_info s)) s"

subsection \<open>Bit stream\<close>

text \<open>The loop \<^verbatim>\<open>for i in range(7, -1, -1): encoded.append((x >> i) & 1)\<close>.\<close>

definition append_bits :: "int \<Rightarrow> int list \<Rightarrow> int list" where
  "append_bits x encoded =
     fold (\<lambda>i acc. acc @ [drop_bit (nat i) x AND 1]) (range_step 7 (- 1) (- 1)) encoded"

definition encode_data :: "QRGenerator \<Rightarrow> error + int list" where
  "encode_data s =
     (case utf8_encode (data s) of
        Inl e \<Rightarrow> Inl e
      | Inr data_bytes \<Rightarrow>
          Inr (fold append_bits data_bytes (append_bits (int (length data_bytes)) [0, 1, 0, 0])))"

definition add_error_correction :: "int list \<Rightarrow> int list" where
  "add_error_correction d = d"

subsection \<open>Function-module test, data placement and masking\<close>

definition is_function_module :: "QRGenerator \<Rightarrow> int \<Rightarrow> int \<Rightarrow> bool" where
  "is_function_module s row col =
     (if (row < 9 \<and> col < 9) \<or> (row < 9 \<and> col \<ge> module_count s - 8)
         \<or> (row \<ge> module_count s - 8 \<and> col < 9) then True
      else if row = 6 \<or> col = 6 then True
      else if version s > 1 \<and> row = 4 * version s + 9 \<and> col = 8 then True
      else False)"

text \<open>The variables of the loops of \<^verbatim>\<open>_place_data\<close>, with the object.\<close>

record placing =
  bit_index :: nat
  direction :: int
  gen :: QRGenerator

definition sweep_row :: "int \<Rightarrow> int \<Rightarrow> int \<Rightarrow> int" where
  "sweep_row dir n k = (if dir = - 1 then n - 1 - (k mod n) else k mod n)"

definition place_cell :: "int list \<Rightarrow> int \<Rightarrow> int \<Rightarrow> int \<Rightarrow> placing \<Rightarrow> placing outcome" where
  "place_cell d col k c p =
     (let current_col = col - c; n = module_count (gen p)
      in if n = 0 then Raised ZeroDivisionError p
         else
           let row = sweep_row (direction p) n k
           in if \<not> is_function_module (gen p) row current_col then
                if bit_index p < length d then
                  (case set_module row current_col (d ! bit_index p \<noteq> 0) (gen p) of
                     Raised e s' \<Rightarrow> Raised e (p\<lparr>gen := s'\<rparr>)
                   | Returned s' \<Rightarrow> Returned (p\<lparr>gen := s', bit_index := bit_index p + 1\<rparr>))
                else Returned p
              else Returned p)"

definition place_row :: "int list \<Rightarrow> int \<Rightarrow> int \<Rightarrow> placing \<Rightarrow> placing outcome" where
  "place_row d col k p =
     then_run (for_each (py_range 0 2) (place_cell d col k) p)
       (\<lambda>p'. Returned (p'\<lparr>direction := direction p' * (- 1)\<rparr>))"

definition place_sweep :: "int list \<Rightarrow> int \<Rightarrow> placing \<Rightarrow> placing outcome" where
  "place_sweep d col0 p =
     (let col = (if col0 = 6 then col0 - 1 else col0)
      in for_each (py_range 0 (module_count (gen p))) (place_row d col) p)"

definition place_data :: "int list \<Rightarrow> QRGenerator \<Rightarrow> QRGenerator outcome" where
  "place_data d s =
     (case for_each (range_step (module_count s - 1) 0 (- 2)) (place_sweep d)
             \<lparr>bit_index = 0, direction = - 1, gen = s\<rparr> of
        Raised e p \<Rightarrow> Raised e (gen p)
      | Returned p \<Rightarrow> Returned (gen p))"

definition mask_cell :: "int \<Rightarrow> int \<Rightarrow> QRGenerator \<Rightarrow> QRGenerator outcome" where
  "mask_cell row col s =
     (if \<not> is_function_module s row col then
        if (row + col) mod 2 = 0 then
          (case get_module s row col of
             Inl e \<Rightarrow> Raised e s
           | Inr v \<Rightarrow> set_module row col (\<not> v) s)
        else Returned s
      else Returned s)"

definition mask_row :: "int \<Rightarrow> QRGenerator \<Rightarrow> QRGenerator outcome" where
  "mask_row row s = for_each (py_range 0 (module_count s)) (mask_cell row) s"

definition apply_mask :: "QRGenerator \<Rightarrow> QRGenerator outcome" where
  "apply_mask s = for_each (py_range 0 (module_count s)) mask_row s"

subsection \<open>Building the symbol and reading it\<close>

definition allocate :: "QRGenerator \<Rightarrow> QRGenerator outcome" where
  "allocate s =
     (case version_info (version s) of
        None \<Rightarrow> Raised KeyError s
      | Some (sz, capacity) \<Rightarrow>
          (let s1 = s\<lparr>module_count := sz\<rparr>
           in Returned (s1\<lparr>modules :=
                Some (replicate (nat (module_count s1)) (replicate (nat (module_count s1)) False))\<rparr>)))"

definition encode_and_place :: "QRGenerator \<Rightarrow> QRGenerator outcome" where
  "encode_and_place s =
     (case encode_data s of
        Inl e \<Rightarrow> Raised e s
      | Inr encoded_data \<Rightarrow> place_data (add_error_correction encoded_data) s)"

definition make :: "QRGenerator \<Rightarrow> QRGenerator outcome" where
  "make s =
     (if data s = [] then Raised ValueError s
      else
        then_run (optimize_version s) (\<lambda>s.
        then_run (allocate s) (\<lambda>s.
        then_run (place_finder_patterns s) (\<lambda>s.
        then_run (place_separators s) (\<lambda>s.
        then_run (place_timing_patterns s) (\<lambda>s.
        then_run (place_dark_module s) (\<lambda>s.
        then_run (place_format_info s) (\<lambda>s.
        then_run (encode_and_place s) apply_mask))))))))"

definition get_module_count :: "QRGenerator \<Rightarrow> int" where
  "get_module_count s = module_count s"

definition is_dark :: "QRGenerator \<Rightarrow> int \<Rightarrow> int \<Rightarrow> error + bool" where
  "is_dark s row col =
     (if 0 \<le> row \<and> row < module_count s \<and> 0 \<le> col \<and> col < module_count s
      then get_module s row col
      else Inr False)"


subsection \<open>Renderers\<close>

text \<open>
  The two renderers walk the grid and draw one primitive per dark module. The model keeps
  of each primitive its kind, the module it is drawn for and its fill; the pixel geometry
  (floating point products of the row and column with \<^verbatim>\<open>512 / module_count\<close>) and the
  encoding of the result as PNG or as text are outside the model. Two parts of the imaging
  library are parameters: \<open>getrgb\<close> says whether \<^verbatim>\<open>ImageColor.getrgb\<close> accepts a colour
  string (it raises otherwise), and \<open>open_logo\<close> gives the decoded and resized logo, or
  \<open>None\<close> when any step of the guarded logo block raises.
\<close>

datatype drawing = Ellipse int int string | RoundedRectangle int int string
  | Rectangle int int string

datatype svg_element = Circle int int string | RoundedRect int int string
  | Rect int int string

definition image_module ::
  "QRGenerator \<Rightarrow> string \<Rightarrow> string \<Rightarrow> string \<Rightarrow> int \<Rightarrow> int \<Rightarrow> int
     \<Rightarrow> drawing list \<Rightarrow> drawing list outcome" where
  "image_module qr_generator color marker_shape dot_shape mcount row col img =
     (case is_dark qr_generator row col of
        Inl e \<Rightarrow> Raised e img
      | Inr dark \<Rightarrow>
          if dark then
            (let is_finder = ((row < 7 \<and> col < 7) \<or> (row < 7 \<and> col \<ge> mcount - 7)
                                \<or> (row \<ge> mcount - 7 \<and> col < 7));
                 shape = (if is_finder then marker_shape else dot_shape)
             in if shape = ''circle'' then Returned (img @ [Ellipse row col color])
                else if shape = ''rounded'' then Returned (img @ [RoundedRectangle row col color])
                else Returned (img @ [Rectangle row col color]))
          else Returned img)"

definition create_qr_image ::
  "(string \<Rightarrow> bool) \<Rightarrow> (string \<Rightarrow> 'logo option) \<Rightarrow> QRGenerator \<Rightarrow> string \<Rightarrow> string
     \<Rightarrow> string \<Rightarrow> string option \<Rightarrow> error + drawing list \<times> 'logo option" where
  "create_qr_image getrgb open_logo qr_generator color0 marker_shape dot_shape logo_base64 =
     (let color = (if getrgb color0 then color0 else ''#000000'');
          mcount = get_module_count qr_generator
      in if mcount = 0 then Inl ZeroDivisionError
         else
           (case for_each (py_range 0 mcount)
                   (\<lambda>row. for_each (py_range 0 mcount)
                      (image_module qr_generator color marker_shape dot_shape mcount row))
                   [] of
              Raised e img \<Rightarrow> Inl e
            | Returned img \<Rightarrow>
                Inr (img, case logo_base64 of
                            None \<Rightarrow> None
                          | Some l \<Rightarrow> if l = [] then None else open_logo l)))"

definition svg_module ::
  "QRGenerator \<Rightarrow> string \<Rightarrow> string \<Rightarrow> string \<Rightarrow> int \<Rightarrow> int \<Rightarrow> int
     \<Rightarrow> svg_element list \<Rightarrow> svg_element list outcome" where
  "svg_module qr_generator color marker_shape dot_shape mcount row col svg_content =
     (case is_dark qr_generator row col of
        Inl e \<Rightarrow> Raised e svg_content
      | Inr dark \<Rightarrow>
          if dark then
            (let is_finder = ((row < 7 \<and> col < 7) \<or> (row < 7 \<and> col \<ge> mcount - 7)
                                \<or> (row \<ge> mcount - 7 \<and> col < 7));
                 shape = (if is_finder then marker_shape else dot_shape)
             in if shape = ''circle'' then Returned (svg_content @ [Circle row col color])
                else if shape = ''rounded'' then Returned (svg_content @ [RoundedRect row col color])
                else Returned (svg_content @ [Rect row col color]))
          else Returned svg_content)"

definition create_qr_svg ::
  "(string \<Rightarrow> bool) \<Rightarrow> QRGenerator \<Rightarrow> string \<Rightarrow> string \<Rightarrow> string
     \<Rightarrow> error + svg_element list" where
  "create_qr_svg getrgb qr_generator color0 marker_shape dot_shape =
     (let color = (if getrgb color0 then color0 else ''#000000'');
          mcount = get_module_count qr_generator
      in if mcount = 0 then Inl ZeroDivisionError
         else
           (case for_each (py_range 0 mcount)
                   (\<lambda>row. for_each (py_range 0 mcount)
                      (svg_module qr_generator color marker_shape dot_shape mcount row))
                   [] of
              Raised e svg_content \<Rightarrow> Inl e
            | Returned svg_content \<Rightarrow> Inr svg_content))"

text \<open>
  The vector primitive that corresponds to a raster primitive: the same module, the same
  shape variant and the same fill.
\<close>

fun as_svg :: "drawing \<Rightarrow> svg_element" where
  "as_svg (Ellipse row col fill) = Circle row col fill"
| "as_svg (RoundedRectangle row col fill) = RoundedRect row col fill"
| "as_svg (Rectangle row col fill) = Rect row col fill"

fun drawing_module :: "drawing \<Rightarrow> int \<times> int" where
  "drawing_module (Ellipse row col fill) = (row, col)"
| "drawing_module (RoundedRectangle row col fill) = (row, col)"
| "drawing_module (Rectangle row col fill) = (row, col)"

fun drawing_fill :: "drawing \<Rightarrow> string" where
  "drawing_fill (Ellipse row col fill) = fill"
| "drawing_fill (RoundedRectangle row col fill) = fill"
| "drawing_fill (Rectangle row col fill) = fill"

fun svg_fill :: "svg_element \<Rightarrow> string" where
  "svg_fill (Circle row col fill) = fill"
| "svg_fill (RoundedRect row col fill) = fill"
| "svg_fill (Rect row col fill) = fill"

text \<open>Two runs that raise the same exception, or return related states.\<close>

fun same_outcome :: "('s \<Rightarrow> 't \<Rightarrow> bool) \<Rightarrow> 's outcome \<Rightarrow> 't outcome \<Rightarrow> bool" where
  "same_outcome R (Raised e s) (Raised e' t) = (e = e')"
| "same_outcome R (Returned s) (Returned t) = R s t"
| "same_outcome R (Raised e s) (Returned t) = False"
| "same_outcome R (Returned s) (Raised e t) = False"

section \<open>Predicates used to state the properties\<close>

text \<open>A grid of \<open>n\<close> rows of \<open>n\<close> modules each.\<close>

definition square_grid :: "int \<Rightarrow> bool list list \<Rightarrow> bool" where
  "square_grid n g \<longleftrightarrow> length g = nat n \<and> (\<forall>line \<in> set g. length line = nat n)"

text \<open>
  \<open>grid_state base s\<close>: the object \<open>s\<close> is \<open>base\<close> with some square grid of the side
  \<open>module_count base\<close> stored in \<open>modules\<close>.
\<close>

definition grid_state :: "QRGenerator \<Rightarrow> QRGenerator \<Rightarrow> bool" where
  "grid_state base s \<longleftrightarrow>
     (\<exists>g. square_grid (module_count base) g \<and> s = base\<lparr>modules := Some g\<rparr>)"

text \<open>The module stored at a position of an allocated grid.\<close>

definition cell :: "QRGenerator \<Rightarrow> int \<Rightarrow> int \<Rightarrow> bool" where
  "cell s row col = (case modules s of None \<Rightarrow> False | Some g \<Rightarrow> g ! nat row ! nat col)"

definition stored :: "int \<Rightarrow> int \<Rightarrow> bool \<Rightarrow> QRGenerator \<Rightarrow> QRGenerator" where
  "stored row col v s =
     (case modules s of
        None \<Rightarrow> s
      | Some g \<Rightarrow> s\<lparr>modules := Some (g[nat row := (g ! nat row)[nat col := v]])\<rparr>)"

definition in_grid :: "QRGenerator \<Rightarrow> int \<Rightarrow> int \<Rightarrow> bool" where
  "in_grid s row col \<longleftrightarrow>
     0 \<le> row \<and> row < module_count s \<and> 0 \<le> col \<and> col < module_count s"

text \<open>A statement of a method that returns and keeps a property of the state.\<close>

definition preserves :: "('s \<Rightarrow> bool) \<Rightarrow> ('s \<Rightarrow> 's outcome) \<Rightarrow> bool" where
  "preserves P f \<longleftrightarrow> (\<forall>s. P s \<longrightarrow> (\<exists>s'. f s = Returned s' \<and> P s'))"

text \<open>
  Whether a payload of \<open>n\<close> bytes fits the capacity that the table gives for a version and
  a level, and the version that the selection loop leaves in the object.
\<close>

definition fits :: "int \<Rightarrow> ErrorCorrectionLevel \<Rightarrow> int \<Rightarrow> bool" where
  "fits n ecl v = (case version_info v of None \<Rightarrow> False | Some (sz, capacity) \<Rightarrow> n \<le> capacity ecl)"

definition selected :: "int \<Rightarrow> ErrorCorrectionLevel \<Rightarrow> int" where
  "selected n ecl = (case optimize_loop (py_range 1 6) n ecl of Some v \<Rightarrow> v | None \<Rightarrow> 5)"

text \<open>The number that a list of bits denotes, the most significant bit first.\<close>

definition msb_value :: "int list \<Rightarrow> int" where
  "msb_value bits = foldl (\<lambda>a b. 2 * a + b) 0 bits"

text \<open>
  The states of a generator that its interface produces: the constructor, \<^verbatim>\<open>add_data\<close>,
  and \<^verbatim>\<open>make\<close> whether it returns or raises.
\<close>

inductive reachable :: "QRGenerator \<Rightarrow> bool" where
  reachable_init: "reachable (init v ecl)"
| reachable_add_data: "reachable s \<Longrightarrow> reachable (add_data d s)"
| reachable_make: "reachable s \<Longrightarrow> make s = Returned s' \<Longrightarrow> reachable s'"
| reachable_make_raised: "reachable s \<Longrightarrow> make s = Raised e s' \<Longrightarrow> reachable s'"

text \<open>
  \<open>writes base W V f\<close>: on every grid state of \<open>base\<close> the method \<open>f\<close> returns a grid
  state in which the modules of \<open>W\<close> hold the values \<open>V\<close> and all others are as before.
\<close>

definition writes ::
  "QRGenerator \<Rightarrow> (int \<Rightarrow> int \<Rightarrow> bool) \<Rightarrow> (int \<Rightarrow> int \<Rightarrow> bool)
     \<Rightarrow> (QRGenerator \<Rightarrow> QRGenerator outcome) \<Rightarrow> bool" where
  "writes base W V f \<longleftrightarrow>
     (\<forall>s. grid_state base s \<longrightarrow>
        (\<exists>s'. f s = Returned s' \<and> grid_state base s'
           \<and> (\<forall>r c. in_grid base r c \<longrightarrow>
                 cell s' r c = (if W r c then V r c else cell s r c))))"

text \<open>
  The modules that the stages of \<^verbatim>\<open>make\<close> before data placement assign, in a symbol of
  side \<open>n\<close>: the dark modules of a finder pattern relative to its corner, the three finder
  patterns, the separator lines, the timing lines, the dark module, and the format bits
  with their values for a level.
\<close>

definition finder_ring :: "int \<Rightarrow> int \<Rightarrow> bool" where
  "finder_ring r c \<longleftrightarrow> 0 \<le> r \<and> r \<le> 6 \<and> 0 \<le> c \<and> c \<le> 6
     \<and> (r = 0 \<or> r = 6 \<or> c = 0 \<or> c = 6 \<or> (2 \<le> r \<and> r \<le> 4 \<and> 2 \<le> c \<and> c \<le> 4))"

definition finder_at :: "int \<Rightarrow> int \<Rightarrow> int \<Rightarrow> bool" where
  "finder_at n r c \<longleftrightarrow> finder_ring r c \<or> finder_ring (r - (n - 7)) c \<or> finder_ring r (c - (n - 7))"

definition edge :: "int \<Rightarrow> int \<Rightarrow> bool" where
  "edge r c \<longleftrightarrow> 0 \<le> r \<and> r \<le> 7 \<and> 0 \<le> c \<and> c \<le> 7 \<and> (r = 7 \<or> c = 7)"

definition separator_at :: "int \<Rightarrow> int \<Rightarrow> int \<Rightarrow> bool" where
  "separator_at n r c \<longleftrightarrow>
     r < n \<and> c < n \<and> (edge r c \<or> edge (r - (n - 7)) c \<or> edge r (c - (n - 7)))"

definition timing_at :: "int \<Rightarrow> int \<Rightarrow> int \<Rightarrow> bool" where
  "timing_at n r c \<longleftrightarrow> (r = 6 \<and> 8 \<le> c \<and> c < n - 8) \<or> (c = 6 \<and> 8 \<le> r \<and> r < n - 8)"

definition dark_at :: "int \<Rightarrow> int \<Rightarrow> int \<Rightarrow> int \<Rightarrow> bool" where
  "dark_at n v r c \<longleftrightarrow> 21 < n \<and> r = 4 * v + 9 \<and> c = 8"

definition format_at :: "int \<Rightarrow> int \<Rightarrow> int \<Rightarrow> bool" where
  "format_at n r c \<longleftrightarrow>
     (r = 8 \<and> ((0 \<le> c \<and> c \<le> 5) \<or> c = 7 \<or> c = 8 \<or> c = n - 8 \<or> (n - 6 \<le> c \<and> c \<le> n - 1)))
   \<or> (c = 8 \<and> ((0 \<le> r \<and> r \<le> 5) \<or> r = 7 \<or> (n - 6 \<le> r \<and> r \<le> n - 1)))"

definition format_value :: "ErrorCorrectionLevel \<Rightarrow> int \<Rightarrow> int \<Rightarrow> int \<Rightarrow> bool" where
  "format_value ecl n r c \<longleftrightarrow>
     ((ecl = L \<or> ecl = Q) \<and> ((r = 8 \<and> c = 3) \<or> (r = n - 4 \<and> c = 8)))
   \<or> ((ecl = Q \<or> ecl = H) \<and> ((r = 8 \<and> c = 4) \<or> (r = n - 5 \<and> c = 8)))"

text \<open>The module that these stages leave at a position of a grid that was all light.\<close>

definition function_pattern :: "int \<Rightarrow> int \<Rightarrow> ErrorCorrectionLevel \<Rightarrow> int \<Rightarrow> int \<Rightarrow> bool" where
  "function_pattern n v ecl r c =
     (if format_at n r c then format_value ecl n r c
      else if dark_at n v r c then True
      else if timing_at n r c then (r + c) mod 2 = 0
      else if separator_at n r c then False
      else finder_at n r c)"

text \<open>
  The three 7x7 corner footprints of the finder patterns in a symbol of side \<open>n\<close>, and the
  primitive that each renderer draws for a shape name at a module.
\<close>

definition finder_footprint :: "int \<Rightarrow> int \<Rightarrow> int \<Rightarrow> bool" where
  "finder_footprint n r c \<longleftrightarrow>
     (0 \<le> r \<and> r \<le> 6 \<and> 0 \<le> c \<and> c \<le> 6)
   \<or> (0 \<le> r \<and> r \<le> 6 \<and> n - 7 \<le> c \<and> c \<le> n - 1)
   \<or> (n - 7 \<le> r \<and> r \<le> n - 1 \<and> 0 \<le> c \<and> c \<le> 6)"

definition shape_drawing :: "string \<Rightarrow> int \<Rightarrow> int \<Rightarrow> string \<Rightarrow> drawing" where
  "shape_drawing shape r c fill =
     (if shape = ''circle'' then Ellipse r c fill
      else if shape = ''rounded'' then RoundedRectangle r c fill
      else Rectangle r c fill)"

definition shape_element :: "string \<Rightarrow> int \<Rightarrow> int \<Rightarrow> string \<Rightarrow> svg_element" where
  "shape_element shape r c fill =
     (if shape = ''circle'' then Circle r c fill
      else if shape = ''rounded'' then RoundedRect r c fill
      else Rect r c fill)"

section \<open>Loops and module access\<close>

lemma range_7_down: "range_step 7 (- 1) (- 1) = [7, 6, 5, 4, 3, 2, 1, 0]"
  by (simp add: range_step.simps)

lemma py_range_set: "set (py_range a b) = {a..<b}"
  by (auto simp: py_range_def)

lemma py_index_in: "0 \<le> i \<Longrightarrow> i < int n \<Longrightarrow> py_index n i = Some (nat i)"
  by (simp add: py_index_def)

lemma preservesI: "(\<And>s. P s \<Longrightarrow> \<exists>s'. f s = Returned s' \<and> P s') \<Longrightarrow> preserves P f"
  by (simp add: preserves_def)

lemma preservesD: "preserves P f \<Longrightarrow> P s \<Longrightarrow> \<exists>s'. f s = Returned s' \<and> P s'"
  by (simp add: preserves_def)

lemma preserves_for_each:
  assumes "\<And>x. x \<in> set xs \<Longrightarrow> preserves P (body x)"
  shows "preserves P (for_each xs body)"
  using assms
proof (induction xs)
  case Nil
  show ?case by (simp add: preserves_def)
next
  case (Cons x xs)
  have step: "preserves P (body x)" using Cons.prems by simp
  have rest: "preserves P (for_each xs body)" using Cons by simp
  show ?case
  proof (rule preservesI)
    fix s assume "P s"
    then obtain s1 where s1: "body x s = Returned s1" "P s1"
      using preservesD [OF step] by blast
    then obtain s2 where "for_each xs body s1 = Returned s2" "P s2"
      using preservesD [OF rest] by blast
    with s1 show "\<exists>s'. for_each (x # xs) body s = Returned s' \<and> P s'" by simp
  qed
qed

lemma preserves_then_run:
  assumes "preserves P f" and "preserves P g"
  shows "preserves P (\<lambda>s. then_run (f s) g)"
proof (rule preservesI)
  fix s assume "P s"
  then obtain s1 where s1: "f s = Returned s1" "P s1"
    using preservesD [OF assms(1)] by blast
  then obtain s2 where "g s1 = Returned s2" "P s2"
    using preservesD [OF assms(2)] by blast
  with s1 show "\<exists>s'. then_run (f s) g = Returned s' \<and> P s'" by simp
qed

lemma preserves_Returned: "preserves P Returned"
  by (simp add: preserves_def)

lemma grid_state_fields:
  assumes "grid_state base s"
  shows "module_count s = module_count base" and "version s = version base"
    and "error_correction s = error_correction base" and "data s = data base"
  using assms by (auto simp: grid_state_def)

lemma square_grid_update:
  assumes "square_grid n g"
  shows "square_grid n (g[i := (g ! i)[j := v]])"
proof (cases "i < length g")
  case True
  have "set (g[i := (g ! i)[j := v]]) \<subseteq> insert ((g ! i)[j := v]) (set g)"
    by (rule set_update_subset_insert)
  moreover have "length ((g ! i)[j := v]) = nat n"
    using assms True by (simp add: square_grid_def)
  ultimately show ?thesis
    using assms by (auto simp: square_grid_def)
next
  case False
  then have "g[i := (g ! i)[j := v]] = g" by (simp add: list_update_beyond not_less)
  then show ?thesis using assms by simp
qed

lemma set_module_stored:
  assumes "grid_state base s" and "in_grid base row col"
  shows "set_module row col v s = Returned (stored row col v s)"
proof -
  obtain g where g: "square_grid (module_count base) g" "s = base\<lparr>modules := Some g\<rparr>"
    using assms(1) by (auto simp: grid_state_def)
  have r: "py_index (length g) row = Some (nat row)"
    using g(1) assms(2) by (simp add: py_index_in square_grid_def in_grid_def)
  have "g ! nat row \<in> set g"
    using g(1) assms(2) by (simp add: square_grid_def in_grid_def)
  then have "length (g ! nat row) = nat (module_count base)"
    using g(1) by (simp add: square_grid_def)
  then have c: "py_index (length (g ! nat row)) col = Some (nat col)"
    using assms(2) by (simp add: py_index_in in_grid_def)
  show ?thesis
    using r c g(2) by (simp add: set_module_def stored_def)
qed

lemma grid_state_stored:
  assumes "grid_state base s"
  shows "grid_state base (stored row col v s)"
proof -
  obtain g where g: "square_grid (module_count base) g" "s = base\<lparr>modules := Some g\<rparr>"
    using assms by (auto simp: grid_state_def)
  have "square_grid (module_count base) (g[nat row := (g ! nat row)[nat col := v]])"
    using g(1) by (rule square_grid_update)
  then show ?thesis
    using g(2) by (auto simp: grid_state_def stored_def)
qed

lemma cell_stored:
  assumes "grid_state base s" and "in_grid base row col" and "in_grid base r c"
  shows "cell (stored row col v s) r c = (if r = row \<and> c = col then v else cell s r c)"
proof -
  obtain g where g: "square_grid (module_count base) g" "s = base\<lparr>modules := Some g\<rparr>"
    using assms(1) by (auto simp: grid_state_def)
  have len: "nat row < length g" "nat r < length g"
    using g(1) assms(2,3) by (simp_all add: square_grid_def in_grid_def)
  then have "g ! nat row \<in> set g" by simp
  then have lrow: "nat col < length (g ! nat row)" "nat c < length (g ! nat row)"
    using g(1) assms(2,3) by (simp_all add: square_grid_def in_grid_def)
  have eqs: "nat r = nat row \<longleftrightarrow> r = row" "nat c = nat col \<longleftrightarrow> c = col"
    using assms(2,3) by (auto simp: in_grid_def)
  show ?thesis
    using g(2) len lrow eqs
    by (auto simp: cell_def stored_def nth_list_update)
qed

lemma get_module_cell:
  assumes "grid_state base s" and "in_grid base row col"
  shows "get_module s row col = Inr (cell s row col)"
proof -
  obtain g where g: "square_grid (module_count base) g" "s = base\<lparr>modules := Some g\<rparr>"
    using assms(1) by (auto simp: grid_state_def)
  have r: "py_index (length g) row = Some (nat row)"
    using g(1) assms(2) by (simp add: py_index_in square_grid_def in_grid_def)
  have "g ! nat row \<in> set g"
    using g(1) assms(2) by (simp add: square_grid_def in_grid_def)
  then have "length (g ! nat row) = nat (module_count base)"
    using g(1) by (simp add: square_grid_def)
  then have c: "py_index (length (g ! nat row)) col = Some (nat col)"
    using assms(2) by (simp add: py_index_in in_grid_def)
  show ?thesis
    using r c g(2) by (simp add: get_module_def cell_def)
qed

lemma preserves_set_module:
  assumes "in_grid base row col"
  shows "preserves (grid_state base) (set_module row col v)"
  by (rule preservesI) (simp add: set_module_stored [OF _ assms] grid_state_stored)

lemma preserves_set_if:
  assumes "b \<Longrightarrow> in_grid base row col"
  shows "preserves (grid_state base) (set_if b row col v)"
proof (cases b)
  case True
  then have "set_if b row col v = set_module row col v"
    by (simp add: set_if_def fun_eq_iff)
  then show ?thesis using preserves_set_module [OF assms [OF True]] by simp
next
  case False
  then have "set_if b row col v = Returned"
    by (simp add: set_if_def fun_eq_iff)
  then show ?thesis by (simp add: preserves_Returned)
qed

section \<open>Every stage returns on an allocated grid\<close>


lemma for_each_ok:
  assumes "P s" and "\<And>x. x \<in> set xs \<Longrightarrow> preserves P (body x)"
  shows "\<exists>s'. for_each xs body s = Returned s' \<and> P s'"
  using preservesD [OF preserves_for_each, of xs P body s] assms by blast

lemma then_run_ok:
  assumes "\<exists>s1. r = Returned s1 \<and> P s1" and "preserves P g"
  shows "\<exists>s'. then_run r g = Returned s' \<and> P s'"
  using assms preservesD [OF assms(2)] by auto

lemma set_if_ok:
  assumes "grid_state base s" and "b \<Longrightarrow> in_grid base row col"
  shows "\<exists>s'. set_if b row col v s = Returned s' \<and> grid_state base s'"
  using preservesD [OF preserves_set_if assms(1)] assms(2) by blast

lemma preserves_finder_cell: "preserves (grid_state base) (finder_cell row col r c)"
proof (rule preservesI)
  fix s assume gs: "grid_state base s"
  show "\<exists>s'. finder_cell row col r c s = Returned s' \<and> grid_state base s'"
    using gs set_module_stored [OF gs] grid_state_stored [OF gs] grid_state_fields(1) [OF gs]
    by (auto simp: finder_cell_def in_grid_def)
qed

lemma place_finder_patterns_ok:
  assumes "grid_state base s"
  shows "\<exists>s'. place_finder_patterns s = Returned s' \<and> grid_state base s'"
  unfolding place_finder_patterns_def
  by (rule for_each_ok [where P = "grid_state base", OF assms])
     (auto intro!: preserves_for_each preserves_finder_cell)

lemma preserves_separator_cell:
  assumes "0 \<le> row" "0 \<le> col" "0 \<le> r" "0 \<le> c"
  shows "preserves (grid_state base) (separator_cell row col r c)"
proof (rule preservesI)
  fix s assume gs: "grid_state base s"
  show "\<exists>s'. separator_cell row col r c s = Returned s' \<and> grid_state base s'"
    using gs set_module_stored [OF gs] grid_state_stored [OF gs] grid_state_fields(1) [OF gs] assms
    by (auto simp: separator_cell_def in_grid_def)
qed

lemma place_separators_ok:
  assumes "grid_state base s" and "7 \<le> module_count base"
  shows "\<exists>s'. place_separators s = Returned s' \<and> grid_state base s'"
  unfolding place_separators_def
  apply (rule for_each_ok [where P = "grid_state base", OF assms(1)])
  using assms(2) grid_state_fields(1) [OF assms(1)]
  by (auto intro!: preserves_for_each preserves_separator_cell simp: py_range_set)

lemma preserves_timing_step:
  assumes "8 \<le> i" "i < module_count base - 8"
  shows "preserves (grid_state base) (timing_step i)"
  unfolding timing_step_def
  using assms
  by (intro preserves_then_run preserves_set_module) (simp_all add: in_grid_def)

lemma place_timing_patterns_ok:
  assumes "grid_state base s"
  shows "\<exists>s'. place_timing_patterns s = Returned s' \<and> grid_state base s'"
  unfolding place_timing_patterns_def
  apply (rule for_each_ok [where P = "grid_state base", OF assms(1)])
  using grid_state_fields(1) [OF assms(1)]
  by (auto intro!: preserves_for_each preserves_timing_step simp: py_range_set)

lemma place_dark_module_ok:
  assumes "grid_state base s" and "module_count base = 4 * version base + 17" and "1 \<le> version base"
  shows "\<exists>s'. place_dark_module s = Returned s' \<and> grid_state base s'"
proof -
  have "in_grid base (4 * version base + 9) 8"
    using assms(2,3) by (simp add: in_grid_def)
  then show ?thesis
    using set_module_stored [OF assms(1)] grid_state_stored [OF assms(1)] grid_state_fields [OF assms(1)] assms(1)
    by (auto simp: place_dark_module_def)
qed

lemma format_step_ok:
  assumes "grid_state base s" "0 \<le> i" "i < 15"
  shows "\<exists>s'. format_step f i s = Returned s' \<and> grid_state base s'"
proof -
  have n: "module_count s = module_count base" using grid_state_fields(1) [OF assms(1)] .
  show ?thesis
    unfolding format_step_def Let_def n
    using assms
    by (auto intro!: then_run_ok set_if_ok preserves_set_if simp: in_grid_def)
qed

lemma place_format_info_ok:
  assumes "grid_state base s"
  shows "\<exists>s'. place_format_info s = Returned s' \<and> grid_state base s'"
  unfolding place_format_info_def
  apply (rule for_each_ok [where P = "grid_state base", OF assms(1)])
  by (auto intro!: preserves_for_each preservesI format_step_ok simp: py_range_set)


lemma sweep_row_range:
  assumes "0 < n"
  shows "0 \<le> sweep_row dir n k \<and> sweep_row dir n k < n"
  using pos_mod_sign [OF assms, of k] pos_mod_bound [OF assms, of k]
  by (simp add: sweep_row_def)

lemma range_step_down_set:
  "x \<in> set (range_step start stop step) \<Longrightarrow> step < 0 \<Longrightarrow> stop < x \<and> x \<le> start"
proof (induction start stop step rule: range_step.induct)
  case (1 start stop step)
  show ?case
  proof (cases "stop < start")
    case True
    then have "range_step start stop step = start # range_step (start + step) stop step"
      using "1.prems"(2) by (subst range_step.simps) simp
    then have "x = start \<or> x \<in> set (range_step (start + step) stop step)"
      using "1.prems"(1) by simp
    then show ?thesis
    proof
      assume "x = start" then show ?thesis using True by simp
    next
      assume "x \<in> set (range_step (start + step) stop step)"
      then have "stop < x \<and> x \<le> start + step"
        using "1.IH" True "1.prems"(2) by simp
      then show ?thesis using "1.prems"(2) by simp
    qed
  next
    case False
    then have "range_step start stop step = []"
      using "1.prems"(2) by (subst range_step.simps) simp
    then show ?thesis using "1.prems"(1) by simp
  qed
qed

lemma place_cell_ok:
  assumes "grid_state base (gen p)" and "0 \<le> col - c" and "col - c < module_count base"
  shows "\<exists>p'. place_cell d col k c p = Returned p' \<and> grid_state base (gen p')
           \<and> direction p' = direction p"
proof -
  have n: "module_count (gen p) = module_count base"
    using grid_state_fields(1) [OF assms(1)] .
  have pos: "0 < module_count base" using assms(2,3) by simp
  have "in_grid base (sweep_row (direction p) (module_count base) k) (col - c)"
    using sweep_row_range [OF pos] assms(2,3) by (simp add: in_grid_def)
  then show ?thesis
    using set_module_stored [OF assms(1)] grid_state_stored [OF assms(1)] pos assms(1)
    by (simp add: place_cell_def Let_def n)
qed

lemma preserves_place_cell:
  assumes "0 \<le> col - c" and "col - c < module_count base"
  shows "preserves (\<lambda>p. grid_state base (gen p)) (place_cell d col k c)"
proof (rule preservesI)
  fix p :: placing assume "grid_state base (gen p)"
  then show "\<exists>p'. place_cell d col k c p = Returned p' \<and> grid_state base (gen p')"
    using place_cell_ok [OF _ assms] by blast
qed

lemma place_row_ok:
  assumes "grid_state base (gen p)" and "1 \<le> col" and "col < module_count base"
  shows "\<exists>p'. place_row d col k p = Returned p' \<and> grid_state base (gen p')"
proof -
  have "\<exists>p'. for_each (py_range 0 2) (place_cell d col k) p = Returned p'
          \<and> grid_state base (gen p')"
    using assms(2,3)
    by (intro for_each_ok [where P = "\<lambda>p. grid_state base (gen p)", OF assms(1)]
          preserves_place_cell) (auto simp: py_range_set)
  then show ?thesis by (auto simp: place_row_def)
qed

lemma place_sweep_ok:
  assumes "grid_state base (gen p)" and "1 \<le> col0" and "col0 < module_count base"
  shows "\<exists>p'. place_sweep d col0 p = Returned p' \<and> grid_state base (gen p')"
  unfolding place_sweep_def Let_def
  using assms(2,3)
  by (intro for_each_ok [where P = "\<lambda>p. grid_state base (gen p)", OF assms(1)])
     (auto intro!: preservesI place_row_ok)

lemma place_data_ok:
  assumes "grid_state base s"
  shows "\<exists>s'. place_data d s = Returned s' \<and> grid_state base s'"
proof -
  have n: "module_count s = module_count base"
    using grid_state_fields(1) [OF assms] .
  have "\<exists>p'. for_each (range_step (module_count s - 1) 0 (- 2)) (place_sweep d)
             \<lparr>bit_index = 0, direction = - 1, gen = s\<rparr> = Returned p'
          \<and> grid_state base (gen p')"
    using assms n
    by (intro for_each_ok [where P = "\<lambda>p. grid_state base (gen p)"])
       (auto intro!: preservesI place_sweep_ok dest!: range_step_down_set)
  then show ?thesis by (auto simp: place_data_def)
qed

lemma mask_cell_ok:
  assumes "grid_state base s" and "in_grid base row col"
  shows "\<exists>s'. mask_cell row col s = Returned s' \<and> grid_state base s'"
  using set_module_stored [OF assms] grid_state_stored [OF assms(1)] get_module_cell [OF assms]
    assms(1)
  by (simp add: mask_cell_def)

lemma mask_row_ok:
  assumes "grid_state base s" and "0 \<le> row" and "row < module_count base"
  shows "\<exists>s'. mask_row row s = Returned s' \<and> grid_state base s'"
  unfolding mask_row_def
  using assms(2,3) grid_state_fields(1) [OF assms(1)]
  by (intro for_each_ok [where P = "grid_state base", OF assms(1)])
     (auto intro!: preservesI mask_cell_ok simp: py_range_set in_grid_def)

lemma apply_mask_ok:
  assumes "grid_state base s"
  shows "\<exists>s'. apply_mask s = Returned s' \<and> grid_state base s'"
  unfolding apply_mask_def
  using grid_state_fields(1) [OF assms(1)]
  by (intro for_each_ok [where P = "grid_state base", OF assms(1)])
     (auto intro!: preservesI mask_row_ok simp: py_range_set)

lemma version_info_cases:
  "version_info v = Some e \<Longrightarrow> v \<in> {1..5} \<and> fst e = 4 * v + 17"
  by (auto simp: version_info_def split: if_splits)

lemma version_info_dom: "v \<in> {1..5} \<Longrightarrow> \<exists>cap. version_info v = Some (4 * v + 17, cap)"
proof -
  assume "v \<in> {1..5}"
  then have "v = 1 \<or> v = 2 \<or> v = 3 \<or> v = 4 \<or> v = 5" by auto
  then show ?thesis by (auto simp: version_info_def)
qed

lemma py_range_1_6: "py_range 1 6 = [1, 2, 3, 4, 5]"
  by (simp add: py_range_def upto.simps)

lemma optimize_loop_unfold:
  "optimize_loop (py_range 1 6) n ecl =
     (if fits n ecl 1 then Some 1 else if fits n ecl 2 then Some 2
      else if fits n ecl 3 then Some 3 else if fits n ecl 4 then Some 4
      else if fits n ecl 5 then Some 5 else None)"
  by (simp add: py_range_1_6 fits_def version_info_def)

lemma selected_range: "selected n ecl \<in> {1..5}"
  by (simp add: selected_def optimize_loop_unfold)

lemma selected_smallest:
  "fits n ecl (selected n ecl) \<or> (selected n ecl = 5 \<and> (\<forall>v \<in> {1..5}. \<not> fits n ecl v))"
  "\<forall>v \<in> {1..5}. fits n ecl v \<longrightarrow> selected n ecl \<le> v"
proof -
  have enum: "\<And>v::int. v \<in> {1..5} \<longleftrightarrow> v = 1 \<or> v = 2 \<or> v = 3 \<or> v = 4 \<or> v = 5" by auto
  have none: "\<forall>v \<in> {1..5}. \<not> fits n ecl v"
    if "\<not> fits n ecl 1" "\<not> fits n ecl 2" "\<not> fits n ecl 3" "\<not> fits n ecl 4" "\<not> fits n ecl 5"
  proof
    fix v :: int assume "v \<in> {1..5}"
    then have "v = 1 \<or> v = 2 \<or> v = 3 \<or> v = 4 \<or> v = 5" by (simp only: enum)
    then show "\<not> fits n ecl v" using that by auto
  qed
  show "fits n ecl (selected n ecl) \<or> (selected n ecl = 5 \<and> (\<forall>v \<in> {1..5}. \<not> fits n ecl v))"
    using none by (simp add: selected_def optimize_loop_unfold)
  show "\<forall>v \<in> {1..5}. fits n ecl v \<longrightarrow> selected n ecl \<le> v"
  proof (intro ballI impI)
    fix v :: int assume v: "v \<in> {1..5}" and f: "fits n ecl v"
    from v have "v = 1 \<or> v = 2 \<or> v = 3 \<or> v = 4 \<or> v = 5" by (simp only: enum)
    then show "selected n ecl \<le> v"
      using f by (auto simp: selected_def optimize_loop_unfold)
  qed
qed

lemma optimize_version_selected:
  assumes "utf8_encode (data s) = Inr bs"
  shows "optimize_version s = Returned (s\<lparr>version := selected (int (length bs)) (error_correction s)\<rparr>)"
  using assms by (simp add: optimize_version_def selected_def split: option.splits)

lemma allocate_ok:
  assumes "version s \<in> {1..5}"
  shows "\<exists>s'. allocate s = Returned s'
           \<and> grid_state (s\<lparr>module_count := 4 * version s + 17\<rparr>) s'"
proof -
  obtain cap where "version_info (version s) = Some (4 * version s + 17, cap)"
    using version_info_dom [OF assms] by blast
  then show ?thesis
    by (auto simp: allocate_def grid_state_def square_grid_def
          intro!: exI [of _ "replicate (nat (4 * version s + 17)) (replicate (nat (4 * version s + 17)) False)"])
qed

lemma make_ok:
  assumes "data s \<noteq> []" and "utf8_encode (data s) = Inr bs"
    and "v = selected (int (length bs)) (error_correction s)"
  shows "\<exists>s'. make s = Returned s'
           \<and> grid_state (s\<lparr>version := v, module_count := 4 * v + 17\<rparr>) s'"
proof -
  let ?s1 = "s\<lparr>version := v\<rparr>"
  let ?base = "s\<lparr>version := v, module_count := 4 * v + 17\<rparr>"
  have v: "v \<in> {1..5}" using assms(3) selected_range by simp
  have enc: "utf8_encode (data ?base) = Inr bs" using assms(2) by simp
  have base: "module_count ?base = 4 * version ?base + 17" "1 \<le> version ?base"
    "7 \<le> module_count ?base"
    using v by simp_all
  have o: "optimize_version s = Returned ?s1"
    using optimize_version_selected [OF assms(2)] assms(3) by simp
  obtain s2 where s2: "allocate ?s1 = Returned s2" "grid_state ?base s2"
    using allocate_ok [of ?s1] v by auto
  obtain s3 where s3: "place_finder_patterns s2 = Returned s3" "grid_state ?base s3"
    using place_finder_patterns_ok [OF s2(2)] by blast
  obtain s4 where s4: "place_separators s3 = Returned s4" "grid_state ?base s4"
    using place_separators_ok [OF s3(2) base(3)] by blast
  obtain s5 where s5: "place_timing_patterns s4 = Returned s5" "grid_state ?base s5"
    using place_timing_patterns_ok [OF s4(2)] by blast
  obtain s6 where s6: "place_dark_module s5 = Returned s6" "grid_state ?base s6"
    using place_dark_module_ok [OF s5(2) base(1,2)] by blast
  obtain s7 where s7: "place_format_info s6 = Returned s7" "grid_state ?base s7"
    using place_format_info_ok [OF s6(2)] by blast
  have "data s7 = data s" using grid_state_fields(4) [OF s7(2)] by simp
  then have e7: "encode_data s7 = Inr (fold append_bits bs (append_bits (int (length bs)) [0, 1, 0, 0]))"
    using assms(2) by (simp add: encode_data_def)
  obtain s8 where s8: "encode_and_place s7 = Returned s8" "grid_state ?base s8"
    using place_data_ok [OF s7(2)] e7 by (auto simp: encode_and_place_def)
  obtain s9 where s9: "apply_mask s8 = Returned s9" "grid_state ?base s9"
    using apply_mask_ok [OF s8(2)] by blast
  show ?thesis
    using assms(1) o s2 s3 s4 s5 s6 s7 s8 s9 by (simp add: make_def)
qed

lemma utf8_encode_error: "utf8_encode cps = Inl e \<Longrightarrow> e = UnicodeEncodeError"
  by (induction cps arbitrary: e) (auto split: if_splits sum.splits)

lemma make_raised:
  assumes "make s = Raised e s'"
  shows "s' = s \<and> ((e = ValueError \<and> data s = [])
           \<or> (e = UnicodeEncodeError \<and> data s \<noteq> [] \<and> utf8_encode (data s) = Inl UnicodeEncodeError))"
proof (cases "data s = []")
  case True
  then show ?thesis using assms by (simp add: make_def)
next
  case False
  show ?thesis
  proof (cases "utf8_encode (data s)")
    case (Inl e')
    have "e' = UnicodeEncodeError"
      using Inl by (rule utf8_encode_error)
    then show ?thesis using assms False Inl by (simp add: make_def optimize_version_def)
  next
    case (Inr bs)
    then show ?thesis using make_ok [OF False Inr refl] assms by auto
  qed
qed

lemma grid_state_modules:
  assumes "grid_state base s"
  shows "\<exists>g. modules s = Some g \<and> square_grid (module_count base) g"
  using assms by (auto simp: grid_state_def)

section \<open>Version selection and the allocated grid\<close>

text \<open>
  C1. For a non-empty payload with UTF-8 encoding \<open>bs\<close>, \<^verbatim>\<open>make\<close> returns. The version
  it leaves is one of 1..5; it is the smallest of them whose capacity for the level of the
  generator is at least the number of bytes of the payload, and it is 5 when no capacity
  suffices. The grid stored is square, of side \<open>4 * version + 17\<close>, which is the size
  of the version in the table.
\<close>

theorem make_selects_version_and_allocates_square_grid:
  assumes "data s \<noteq> []" and "utf8_encode (data s) = Inr bs"
  shows "\<exists>s' g. make s = Returned s'
           \<and> version s' \<in> {1..5}
           \<and> (fits (int (length bs)) (error_correction s) (version s')
                \<or> (version s' = 5 \<and> (\<forall>v \<in> {1..5}. \<not> fits (int (length bs)) (error_correction s) v)))
           \<and> (\<forall>v \<in> {1..5}. fits (int (length bs)) (error_correction s) v \<longrightarrow> version s' \<le> v)
           \<and> module_count s' = 4 * version s' + 17
           \<and> (\<exists>capacity. version_info (version s') = Some (module_count s', capacity))
           \<and> modules s' = Some g \<and> square_grid (4 * version s' + 17) g"
proof -
  define v where "v = selected (int (length bs)) (error_correction s)"
  let ?base = "s\<lparr>version := v, module_count := 4 * v + 17\<rparr>"
  obtain s' where s': "make s = Returned s'" "grid_state ?base s'"
    using make_ok [OF assms v_def] by blast
  have f: "version s' = v" "module_count s' = 4 * v + 17"
    using grid_state_fields(1,2) [OF s'(2)] by simp_all
  obtain g where g: "modules s' = Some g" "square_grid (4 * v + 17) g"
    using grid_state_modules [OF s'(2)] by auto
  have r: "v \<in> {1..5}" unfolding v_def by (rule selected_range)
  show ?thesis
    using s'(1) f g r selected_smallest [of "int (length bs)" "error_correction s"]
      version_info_dom [OF r]
    unfolding v_def [symmetric] by simp
qed

theorem make_selects_version_and_allocates_square_grid_witness:
  "\<exists>s' g. make (add_data [72, 105] (init 3 H)) = Returned s' \<and> version s' = 1
     \<and> module_count s' = 21 \<and> modules s' = Some g \<and> square_grid 21 g"
proof -
  have d: "data (add_data [72, 105] (init 3 H)) \<noteq> []"
    by (simp add: add_data_def)
  have e: "utf8_encode (data (add_data [72, 105] (init 3 H))) = Inr [72, 105]"
    by (simp add: add_data_def utf8_char_def)
  have f: "fits (int (length [72, 105 :: int])) (error_correction (add_data [72, 105] (init 3 H))) 1"
    by (simp add: fits_def version_info_def add_data_def init_def)
  show ?thesis
    using make_selects_version_and_allocates_square_grid [OF d e] f by fastforce
qed

section \<open>The empty payload\<close>

text \<open>
  C6. With an empty payload \<^verbatim>\<open>make\<close> raises \<^verbatim>\<open>ValueError\<close> and leaves the object as it
  was: no version is selected and no grid is allocated. Whenever \<^verbatim>\<open>make\<close> raises, the
  object is left as it was; the exception is that \<^verbatim>\<open>ValueError\<close>, for the empty payload
  only, or else the error of the UTF-8 codec on a payload that has no encoding, which no
  \<^verbatim>\<open>raise\<close> statement of the source produces.
\<close>

theorem make_without_payload_raises_before_any_work:
  "(data s = [] \<longrightarrow> make s = Raised ValueError s)
   \<and> (\<forall>e s'. make s = Raised e s' \<longrightarrow>
         s' = s \<and> ((e = ValueError \<and> data s = [])
           \<or> (e = UnicodeEncodeError \<and> utf8_encode (data s) = Inl UnicodeEncodeError)))"
  using make_raised [of s] by (auto simp: make_def)

theorem make_without_payload_raises_before_any_work_witness:
  "make (add_data [] (init 1 H)) = Raised ValueError (add_data [] (init 1 H))
   \<and> modules (add_data [] (init 1 H)) = None
   \<and> module_count (add_data [] (init 1 H)) = 0
   \<and> version (add_data [] (init 1 H)) = 1"
  using make_without_payload_raises_before_any_work [of "add_data [] (init 1 H)"]
  by (simp add: add_data_def init_def)

section \<open>Reading a module\<close>

lemma reachable_consistent:
  assumes "reachable s"
  shows "(modules s = None \<and> module_count s = 0)
         \<or> (\<exists>g. modules s = Some g \<and> square_grid (module_count s) g)"
  using assms
proof (induction rule: reachable.induct)
  case (reachable_init v ecl)
  show ?case by (simp add: init_def)
next
  case (reachable_add_data s d)
  then show ?case by (simp add: add_data_def)
next
  case (reachable_make s s')
  have ne: "data s \<noteq> []"
    using reachable_make.hyps(2) by (auto simp: make_def)
  obtain bs where bs: "utf8_encode (data s) = Inr bs"
    using reachable_make.hyps(2) ne
    by (cases "utf8_encode (data s)") (auto simp: make_def optimize_version_def)
  obtain s2 base where "make s = Returned s2" "grid_state base s2"
    using make_ok [OF ne bs refl] by blast
  then have "grid_state base s'" using reachable_make.hyps(2) by simp
  then show ?case by (auto simp: grid_state_def)
next
  case (reachable_make_raised s e s')
  then show ?case using make_raised by blast
qed

lemma consistent_grid_state:
  assumes "modules s = Some g" and "square_grid (module_count s) g"
  shows "grid_state s s"
  using assms by (auto simp: grid_state_def)

text \<open>
  C10. On every generator that the constructor, \<^verbatim>\<open>add_data\<close> and \<^verbatim>\<open>make\<close> produce, and for
  all integers \<open>row\<close> and \<open>col\<close>, \<^verbatim>\<open>is_dark\<close> returns a value and raises nothing: the
  stored module when both coordinates lie in \<open>0 ..< module_count\<close>, and \<^verbatim>\<open>False\<close> for
  every other pair.
\<close>

theorem is_dark_total:
  assumes "reachable s"
  shows "is_dark s row col = Inr (if in_grid s row col then cell s row col else False)"
proof (cases "in_grid s row col")
  case False
  then show ?thesis by (auto simp: is_dark_def in_grid_def)
next
  case True
  then have "module_count s \<noteq> 0" by (auto simp: in_grid_def)
  then obtain g where "modules s = Some g" "square_grid (module_count s) g"
    using reachable_consistent [OF assms] by auto
  then have "grid_state s s" by (rule consistent_grid_state)
  then have "get_module s row col = Inr (cell s row col)"
    using True by (rule get_module_cell)
  then show ?thesis using True by (simp add: is_dark_def in_grid_def)
qed

theorem is_dark_total_witness:
  "\<exists>s'. make (add_data [72, 105] (init 1 H)) = Returned s'
     \<and> is_dark s' 20 0 = Inr (cell s' 20 0) \<and> is_dark s' 21 0 = Inr False
     \<and> is_dark s' (- 1) 0 = Inr False \<and> is_dark (init 1 H) 0 0 = Inr False"
proof -
  let ?s = "add_data [72, 105] (init 1 H)"
  have d: "data ?s \<noteq> []" by (simp add: add_data_def)
  have e: "utf8_encode (data ?s) = Inr [72, 105]" by (simp add: add_data_def utf8_char_def)
  have sel: "selected (int (length [72, 105 :: int])) (error_correction ?s) = 1"
    by (simp add: selected_def optimize_loop_unfold fits_def version_info_def add_data_def init_def)
  obtain s' where s': "make ?s = Returned s'"
    "grid_state (?s\<lparr>version := 1, module_count := 4 * 1 + 17\<rparr>) s'"
    using make_ok [OF d e refl] unfolding sel by blast
  have n: "module_count s' = 21" using grid_state_fields(1) [OF s'(2)] by simp
  have r: "reachable s'"
    using reachable_make [OF reachable_add_data [OF reachable_init] s'(1)] .
  show ?thesis
    using s'(1) n is_dark_total [OF r, of 20 0] is_dark_total [OF r, of 21 0]
      is_dark_total [OF r, of "- 1" 0] is_dark_total [OF reachable_init, of 1 H 0 0]
    by (simp add: in_grid_def init_def)
qed

section \<open>The function-module test\<close>

text \<open>
  C2 (as amended). For a generator whose version is one of 1..5 and whose side is
  \<open>4 * version + 17\<close>, and a position of the grid, \<^verbatim>\<open>_is_function_module\<close> returns
  \<^verbatim>\<open>True\<close> exactly when the position lies in rows 0-8 and columns 0-8, or in rows 0-8
  and the last eight columns, or in the last eight rows and columns 0-8, or on row 6 or
  column 6, or is \<open>(4 * version + 9, 8)\<close> for a version above 1.
\<close>

theorem is_function_module_regions:
  assumes "module_count s = 4 * version s + 17" and "1 \<le> version s" and "version s \<le> 5"
    and "in_grid s row col"
  shows "is_function_module s row col \<longleftrightarrow>
           (row \<le> 8 \<and> col \<le> 8)
         \<or> (row \<le> 8 \<and> module_count s - 8 \<le> col)
         \<or> (module_count s - 8 \<le> row \<and> col \<le> 8)
         \<or> row = 6 \<or> col = 6
         \<or> (1 < version s \<and> row = 4 * version s + 9 \<and> col = 8)"
  by (auto simp: is_function_module_def)

theorem is_function_module_regions_witness:
  "is_function_module ((init 1 H)\<lparr>module_count := 21\<rparr>) 0 13
   \<and> \<not> is_function_module ((init 1 H)\<lparr>module_count := 21\<rparr>) 9 12
   \<and> is_function_module ((init 2 H)\<lparr>module_count := 25\<rparr>) 17 8"
  using is_function_module_regions [of "(init 1 H)\<lparr>module_count := 21\<rparr>" 0 13]
    is_function_module_regions [of "(init 1 H)\<lparr>module_count := 21\<rparr>" 9 12]
    is_function_module_regions [of "(init 2 H)\<lparr>module_count := 25\<rparr>" 17 8]
  by (simp add: init_def in_grid_def)

text \<open>
  C2 as stated asks for nine columns at the top right (columns \<open>size - 9 .. size - 1\<close>).
  In a version-1 symbol (side 21) the position \<open>(0, 12)\<close> lies in rows 0-8 and columns
  12-20, and the test returns \<^verbatim>\<open>False\<close> for it: the source compares the column with
  \<open>module_count - 8\<close>.
\<close>

theorem is_function_module_nine_wide_counterexample:
  "\<not> (is_function_module ((init 1 H)\<lparr>module_count := 21\<rparr>) 0 12 \<longleftrightarrow>
        ((0 :: int) \<le> 0 \<and> (0 :: int) \<le> 8 \<and> (0 :: int) \<le> 12 \<and> (12 :: int) \<le> 8)
      \<or> ((0 :: int) \<le> 0 \<and> (0 :: int) \<le> 8 \<and> (21 :: int) - 9 \<le> 12 \<and> (12 :: int) \<le> 21 - 1)
      \<or> ((21 :: int) - 9 \<le> 0 \<and> (0 :: int) \<le> 21 - 1 \<and> (0 :: int) \<le> 12 \<and> (12 :: int) \<le> 8)
      \<or> (0 :: int) = 6 \<or> (12 :: int) = 6
      \<or> ((1 :: int) < 1 \<and> (0 :: int) = 4 * 1 + 9 \<and> (12 :: int) = 8))"
  by (simp add: is_function_module_def init_def)

section \<open>The bit stream\<close>

lemma append_bits_eq:
  "append_bits x acc = acc @ map (\<lambda>i. (x div 2 ^ i) mod 2) [7, 6, 5, 4, 3, 2, 1, 0 :: nat]"
  by (simp add: append_bits_def range_7_down drop_bit_eq_div and_one_eq)

lemma fold_append_bits:
  "fold append_bits bs acc =
     acc @ concat (map (\<lambda>b. map (\<lambda>i. (b div 2 ^ i) mod 2) [7, 6, 5, 4, 3, 2, 1, 0 :: nat]) bs)"
  by (induction bs arbitrary: acc) (simp_all add: append_bits_eq)

lemma length_concat_bits:
  "length (concat (map (\<lambda>b. map (\<lambda>i. (b div 2 ^ i) mod 2) [7, 6, 5, 4, 3, 2, 1, 0 :: nat]) bs))
     = 8 * length bs"
  by (induction bs) simp_all

lemma foldl_bits:
  "foldl (\<lambda>a b. 2 * a + b) acc (map (\<lambda>i. (x div 2 ^ i) mod 2) (rev [0..<k]))
     = acc * 2 ^ k + (x::int) mod 2 ^ k"
proof (induction k arbitrary: acc)
  case 0
  show ?case by simp
next
  case (Suc k)
  have "x mod (2 ^ k * 2) = 2 ^ k * (x div 2 ^ k mod 2) + x mod 2 ^ k"
    by (rule zmod_zmult2_eq) simp
  then show ?case
    using Suc [of "2 * acc + x div 2 ^ k mod 2"] by (simp add: algebra_simps)
qed

lemma down_8: "[7, 6, 5, 4, 3, 2, 1, 0 :: nat] = rev [0..<8]"
  by (simp add: upt_rec)

lemma msb_value_bits8:
  "msb_value (map (\<lambda>i. (x div 2 ^ i) mod 2) [7, 6, 5, 4, 3, 2, 1, 0 :: nat]) = x mod 256"
  unfolding down_8 msb_value_def foldl_bits by simp

lemma utf8_encode_ascii:
  "\<forall>x \<in> set xs. x < 128 \<Longrightarrow> utf8_encode xs = Inr xs"
  by (induction xs) (simp_all add: utf8_char_def)

lemma encode_data_eq:
  assumes "utf8_encode (data s) = Inr bs"
  shows "encode_data s =
    Inr ([0, 1, 0, 0]
         @ map (\<lambda>i. (int (length bs) div 2 ^ i) mod 2) [7, 6, 5, 4, 3, 2, 1, 0 :: nat]
         @ concat (map (\<lambda>b. map (\<lambda>i. (b div 2 ^ i) mod 2) [7, 6, 5, 4, 3, 2, 1, 0 :: nat]) bs))"
  using assms by (simp add: encode_data_def fold_append_bits append_bits_eq)

text \<open>
  C4, as stated. \<^verbatim>\<open>make\<close> accepts a payload of 300 bytes at level L (the table gives
  version 3 a capacity of 440). Its count field is eight bits and reads 44, not 300.
\<close>

theorem count_field_of_300_bytes_counterexample:
  "\<exists>s' bits.
      make (add_data (replicate 300 65) (init 1 L)) = Returned s'
    \<and> utf8_encode (data (add_data (replicate 300 65) (init 1 L))) = Inr (replicate 300 65)
    \<and> encode_data (add_data (replicate 300 65) (init 1 L)) = Inr bits
    \<and> take 4 bits = [0, 1, 0, 0]
    \<and> msb_value (take 8 (drop 4 bits)) = 44
    \<and> msb_value (take 8 (drop 4 bits)) \<noteq> int (length (replicate 300 (65 :: int)))"
proof -
  let ?a = "add_data (replicate 300 65) (init 1 L)"
  define cf where
    "cf = map (\<lambda>i. (int (length (replicate 300 (65 :: int))) div 2 ^ i) mod 2)
            [7, 6, 5, 4, 3, 2, 1, 0 :: nat]"
  define pb where
    "pb = concat (map (\<lambda>b. map (\<lambda>i. (b div 2 ^ i) mod 2) [7, 6, 5, 4, 3, 2, 1, 0 :: nat])
            (replicate 300 (65 :: int)))"
  have d: "data ?a \<noteq> []" by (simp add: add_data_def)
  have e: "utf8_encode (data ?a) = Inr (replicate 300 65)"
    by (simp add: add_data_def utf8_encode_ascii)
  obtain s' where m: "make ?a = Returned s'"
    using make_ok [OF d e refl] by blast
  have b: "encode_data ?a = Inr ([0, 1, 0, 0] @ cf @ pb)"
    unfolding cf_def pb_def using e by (rule encode_data_eq)
  have l: "length cf = 8" by (simp add: cf_def)
  have "msb_value cf = int (length (replicate 300 (65 :: int))) mod 256"
    unfolding cf_def by (rule msb_value_bits8)
  then have v: "msb_value cf = 44" by simp
  have t8: "take 8 (drop 4 ([0, 1, 0, 0] @ cf @ pb)) = cf" using l by simp
  have t4: "take 4 ([0, 1, 0, 0] @ cf @ pb) = [0, 1, 0, 0]" by simp
  show ?thesis
  proof (intro exI [of _ s'] exI [of _ "[0, 1, 0, 0] @ cf @ pb"] conjI)
    show "make ?a = Returned s'" by (rule m)
    show "utf8_encode (data ?a) = Inr (replicate 300 65)" by (rule e)
    show "encode_data ?a = Inr ([0, 1, 0, 0] @ cf @ pb)" by (rule b)
    show "take 4 ([0, 1, 0, 0] @ cf @ pb) = [0, 1, 0, 0]" by (rule t4)
    show "msb_value (take 8 (drop 4 ([0, 1, 0, 0] @ cf @ pb))) = 44" unfolding t8 by (rule v)
    show "msb_value (take 8 (drop 4 ([0, 1, 0, 0] @ cf @ pb)))
        \<noteq> int (length (replicate 300 (65 :: int)))"
      unfolding t8 v by simp
  qed
qed

text \<open>
  C4, amended. For a payload with UTF-8 encoding \<open>bs\<close>, \<^verbatim>\<open>_encode_data\<close> returns the bits
  0, 1, 0, 0, then bits 7 down to 0 of the number of bytes, then bits 7 down to 0 of each
  byte in order, and nothing else: \<open>12 + 8 * length bs\<close> bits. The count field read as a
  binary number is the number of bytes modulo 256, which is the number itself for a payload
  of at most 255 bytes. \<^verbatim>\<open>_add_error_correction\<close> returns the stream unchanged, and this
  is the list that \<^verbatim>\<open>make\<close> passes to \<^verbatim>\<open>_place_data\<close>.
\<close>

theorem encode_data_bit_stream:
  assumes "utf8_encode (data s) = Inr bs"
  shows "\<exists>count_field payload_bits.
           count_field = map (\<lambda>i. (int (length bs) div 2 ^ i) mod 2) [7, 6, 5, 4, 3, 2, 1, 0 :: nat]
         \<and> payload_bits =
             concat (map (\<lambda>b. map (\<lambda>i. (b div 2 ^ i) mod 2) [7, 6, 5, 4, 3, 2, 1, 0 :: nat]) bs)
         \<and> encode_data s = Inr ([0, 1, 0, 0] @ count_field @ payload_bits)
         \<and> msb_value count_field = int (length bs) mod 256
         \<and> (length bs \<le> 255 \<longrightarrow> msb_value count_field = int (length bs))
         \<and> length ([0, 1, 0, 0] @ count_field @ payload_bits) = 12 + 8 * length bs
         \<and> add_error_correction ([0, 1, 0, 0] @ count_field @ payload_bits)
             = [0, 1, 0, 0] @ count_field @ payload_bits
         \<and> encode_and_place s = place_data ([0, 1, 0, 0] @ count_field @ payload_bits) s"
proof -
  define count_field where
    "count_field = map (\<lambda>i. (int (length bs) div 2 ^ i) mod 2) [7, 6, 5, 4, 3, 2, 1, 0 :: nat]"
  define payload_bits where
    "payload_bits =
       concat (map (\<lambda>b. map (\<lambda>i. (b div 2 ^ i) mod 2) [7, 6, 5, 4, 3, 2, 1, 0 :: nat]) bs)"
  have e: "encode_data s = Inr ([0, 1, 0, 0] @ count_field @ payload_bits)"
    unfolding count_field_def payload_bits_def using assms by (rule encode_data_eq)
  have v: "msb_value count_field = int (length bs) mod 256"
    unfolding count_field_def by (rule msb_value_bits8)
  have w: "length bs \<le> 255 \<longrightarrow> msb_value count_field = int (length bs)"
    unfolding v by simp
  have "length count_field = 8" by (simp add: count_field_def)
  moreover have "length payload_bits = 8 * length bs"
    unfolding payload_bits_def by (rule length_concat_bits)
  ultimately have n: "length ([0, 1, 0, 0] @ count_field @ payload_bits) = 12 + 8 * length bs"
    by simp
  have a: "add_error_correction ([0, 1, 0, 0] @ count_field @ payload_bits)
             = [0, 1, 0, 0] @ count_field @ payload_bits"
    by (simp add: add_error_correction_def)
  have p: "encode_and_place s = place_data ([0, 1, 0, 0] @ count_field @ payload_bits) s"
    by (simp add: encode_and_place_def e add_error_correction_def)
  show ?thesis
    using count_field_def payload_bits_def e v w n a p by blast
qed

text \<open>
  The payload \<^verbatim>\<open>Hi\<close>, two bytes: the count field reads 2.
\<close>

theorem encode_data_bit_stream_witness:
  "utf8_encode (data (add_data [72, 105] (init 1 H))) = Inr [72, 105]
   \<and> length [72, 105 :: int] \<le> 255
   \<and> encode_data (add_data [72, 105] (init 1 H)) =
       Inr [0, 1, 0, 0,  0, 0, 0, 0, 0, 0, 1, 0,  0, 1, 0, 0, 1, 0, 0, 0,  0, 1, 1, 0, 1, 0, 0, 1]
   \<and> msb_value [0, 0, 0, 0, 0, 0, 1, 0] = int (length [72, 105 :: int])"
proof -
  have e: "utf8_encode (data (add_data [72, 105] (init 1 H))) = Inr [72, 105]"
    by (simp add: add_data_def utf8_char_def)
  have m: "msb_value [0, 0, 0, 0, 0, 0, 1, 0] = 2" by (simp add: msb_value_def)
  show ?thesis
    using encode_data_bit_stream [OF e] e m by simp
qed

section \<open>Masking\<close>

lemma is_function_module_grid_state:
  assumes "grid_state base s"
  shows "is_function_module s row col = is_function_module base row col"
  using grid_state_fields(1,2) [OF assms] by (simp add: is_function_module_def)

lemma grid_state_ext:
  assumes "grid_state base s" and "grid_state base s'"
    and "\<And>r c. in_grid base r c \<Longrightarrow> cell s r c = cell s' r c"
  shows "s = s'"
proof -
  obtain g where g: "square_grid (module_count base) g" "s = base\<lparr>modules := Some g\<rparr>"
    using assms(1) by (auto simp: grid_state_def)
  obtain g' where g': "square_grid (module_count base) g'" "s' = base\<lparr>modules := Some g'\<rparr>"
    using assms(2) by (auto simp: grid_state_def)
  have "g = g'"
  proof (rule nth_equalityI)
    show "length g = length g'" using g(1) g'(1) by (simp add: square_grid_def)
  next
    fix i assume i: "i < length g"
    then have i': "i < length g'" using g(1) g'(1) by (simp add: square_grid_def)
    have li: "length (g ! i) = nat (module_count base)"
      using g(1) i by (simp add: square_grid_def)
    have li': "length (g' ! i) = nat (module_count base)"
      using g'(1) i' by (simp add: square_grid_def)
    show "g ! i = g' ! i"
    proof (rule nth_equalityI)
      show "length (g ! i) = length (g' ! i)" using li li' by simp
    next
      fix j assume j: "j < length (g ! i)"
      have "in_grid base (int i) (int j)"
        using i j li g(1) by (simp add: in_grid_def square_grid_def zless_nat_eq_int_zless)
      then have "cell s (int i) (int j) = cell s' (int i) (int j)" by (rule assms(3))
      then show "g ! i ! j = g' ! i ! j" using g(2) g'(2) by (simp add: cell_def)
    qed
  qed
  then show ?thesis using g(2) g'(2) by simp
qed

lemma mask_cell_eq:
  assumes "grid_state base s" and "in_grid base row col"
  shows "mask_cell row col s =
           Returned (if \<not> is_function_module base row col \<and> (row + col) mod 2 = 0
                     then stored row col (\<not> cell s row col) s else s)"
  using set_module_stored [OF assms] get_module_cell [OF assms]
    is_function_module_grid_state [OF assms(1)]
  by (simp add: mask_cell_def)

lemma mask_cells:
  assumes "grid_state base s" and "0 \<le> row" and "row < module_count base"
    and "distinct cs" and "\<forall>c \<in> set cs. 0 \<le> c \<and> c < module_count base"
  shows "\<exists>s'. for_each cs (mask_cell row) s = Returned s' \<and> grid_state base s'
           \<and> (\<forall>r c. in_grid base r c \<longrightarrow>
                 cell s' r c =
                   (if r = row \<and> c \<in> set cs \<and> \<not> is_function_module base r c \<and> (r + c) mod 2 = 0
                    then \<not> cell s r c else cell s r c))"
  using assms(1,4,5)
proof (induction cs arbitrary: s)
  case Nil
  then show ?case by simp
next
  case (Cons c0 cs)
  have in0: "in_grid base row c0"
    using Cons.prems(3) assms(2,3) by (simp add: in_grid_def)
  define k0 where "k0 \<longleftrightarrow> \<not> is_function_module base row c0 \<and> (row + c0) mod 2 = 0"
  define s1 where "s1 = (if k0 then stored row c0 (\<not> cell s row c0) s else s)"
  have m: "mask_cell row c0 s = Returned s1"
    unfolding s1_def k0_def using Cons.prems(1) in0 by (rule mask_cell_eq)
  have gs1: "grid_state base s1"
    unfolding s1_def using Cons.prems(1) by (simp add: grid_state_stored)
  have c1: "cell s1 r c = (if k0 \<and> r = row \<and> c = c0 then \<not> cell s r c else cell s r c)"
    if "in_grid base r c" for r c
  proof (cases k0)
    case True
    then have "cell s1 r c = (if r = row \<and> c = c0 then \<not> cell s row c0 else cell s r c)"
      using cell_stored [OF Cons.prems(1) in0 that] by (simp add: s1_def)
    then show ?thesis using True by auto
  next
    case False
    then show ?thesis by (simp add: s1_def)
  qed
  obtain s' where s': "for_each cs (mask_cell row) s1 = Returned s'" "grid_state base s'"
    and cs': "\<forall>r c. in_grid base r c \<longrightarrow>
                 cell s' r c =
                   (if r = row \<and> c \<in> set cs \<and> \<not> is_function_module base r c \<and> (r + c) mod 2 = 0
                    then \<not> cell s1 r c else cell s1 r c)"
  proof -
    have "distinct cs" "\<forall>c \<in> set cs. 0 \<le> c \<and> c < module_count base"
      using Cons.prems(2,3) by simp_all
    then show ?thesis using Cons.IH [OF gs1] that by blast
  qed
  have "cell s' r c =
      (if r = row \<and> c \<in> set (c0 # cs) \<and> \<not> is_function_module base r c \<and> (r + c) mod 2 = 0
       then \<not> cell s r c else cell s r c)" if "in_grid base r c" for r c
  proof -
    define k where "k \<longleftrightarrow> \<not> is_function_module base r c \<and> (r + c) mod 2 = 0"
    have kk: "k = k0" if "r = row" "c = c0"
      unfolding k_def k0_def using that by simp
    have i': "cell s' r c = (if r = row \<and> c \<in> set cs \<and> k then \<not> cell s1 r c else cell s1 r c)"
      using cs' [rule_format, OF that] unfolding k_def by simp
    have i1: "cell s1 r c = (if k0 \<and> r = row \<and> c = c0 then \<not> cell s r c else cell s r c)"
      using that by (rule c1)
    have ne: "c \<noteq> c0" if "c \<in> set cs" using Cons.prems(2) that by auto
    have "cell s' r c = (if r = row \<and> c \<in> set (c0 # cs) \<and> k then \<not> cell s r c else cell s r c)"
    proof (cases "r = row \<and> c = c0")
      case True
      then have "c \<notin> set cs" using ne by blast
      then show ?thesis using i' i1 True kk by simp
    next
      case False
      then have "cell s1 r c = cell s r c" using i1 by simp
      then show ?thesis using i' False by auto
    qed
    then show ?thesis unfolding k_def by simp
  qed
  then show ?case using m s' by simp
qed

lemma mask_row_cells:
  assumes "grid_state base s" and "0 \<le> row" and "row < module_count base"
  shows "\<exists>s'. mask_row row s = Returned s' \<and> grid_state base s'
           \<and> (\<forall>r c. in_grid base r c \<longrightarrow>
                 cell s' r c =
                   (if r = row \<and> \<not> is_function_module base r c \<and> (r + c) mod 2 = 0
                    then \<not> cell s r c else cell s r c))"
proof -
  have n: "module_count s = module_count base" using grid_state_fields(1) [OF assms(1)] .
  have d: "distinct (py_range 0 (module_count base))" by (simp add: py_range_def)
  have r: "\<forall>c \<in> set (py_range 0 (module_count base)). 0 \<le> c \<and> c < module_count base"
    by (simp add: py_range_set)
  obtain s' where s': "for_each (py_range 0 (module_count base)) (mask_cell row) s = Returned s'"
      "grid_state base s'"
    and c: "\<forall>r c. in_grid base r c \<longrightarrow>
                 cell s' r c =
                   (if r = row \<and> c \<in> set (py_range 0 (module_count base))
                       \<and> \<not> is_function_module base r c \<and> (r + c) mod 2 = 0
                    then \<not> cell s r c else cell s r c)"
    using mask_cells [OF assms d r] by blast
  have "cell s' r c =
      (if r = row \<and> \<not> is_function_module base r c \<and> (r + c) mod 2 = 0
       then \<not> cell s r c else cell s r c)" if "in_grid base r c" for r c
  proof -
    have "c \<in> set (py_range 0 (module_count base))"
      using that by (simp add: py_range_set in_grid_def)
    then show ?thesis using c [rule_format, OF that] by simp
  qed
  then show ?thesis using s' by (simp add: mask_row_def n)
qed

lemma mask_rows:
  assumes "grid_state base s" and "distinct rs"
    and "\<forall>r \<in> set rs. 0 \<le> r \<and> r < module_count base"
  shows "\<exists>s'. for_each rs mask_row s = Returned s' \<and> grid_state base s'
           \<and> (\<forall>r c. in_grid base r c \<longrightarrow>
                 cell s' r c =
                   (if r \<in> set rs \<and> \<not> is_function_module base r c \<and> (r + c) mod 2 = 0
                    then \<not> cell s r c else cell s r c))"
  using assms
proof (induction rs arbitrary: s)
  case Nil
  then show ?case by simp
next
  case (Cons r0 rs)
  obtain s1 where s1: "mask_row r0 s = Returned s1" "grid_state base s1"
    and c1: "\<forall>r c. in_grid base r c \<longrightarrow>
                 cell s1 r c =
                   (if r = r0 \<and> \<not> is_function_module base r c \<and> (r + c) mod 2 = 0
                    then \<not> cell s r c else cell s r c)"
  proof -
    have "0 \<le> r0" "r0 < module_count base" using Cons.prems(3) by simp_all
    then show ?thesis using mask_row_cells [OF Cons.prems(1)] that by blast
  qed
  obtain s' where s': "for_each rs mask_row s1 = Returned s'" "grid_state base s'"
    and cs': "\<forall>r c. in_grid base r c \<longrightarrow>
                 cell s' r c =
                   (if r \<in> set rs \<and> \<not> is_function_module base r c \<and> (r + c) mod 2 = 0
                    then \<not> cell s1 r c else cell s1 r c)"
  proof -
    have "distinct rs" "\<forall>r \<in> set rs. 0 \<le> r \<and> r < module_count base"
      using Cons.prems(2,3) by simp_all
    then show ?thesis using Cons.IH [OF s1(2)] that by blast
  qed
  have "cell s' r c =
      (if r \<in> set (r0 # rs) \<and> \<not> is_function_module base r c \<and> (r + c) mod 2 = 0
       then \<not> cell s r c else cell s r c)" if "in_grid base r c" for r c
  proof -
    define k where "k \<longleftrightarrow> \<not> is_function_module base r c \<and> (r + c) mod 2 = 0"
    have i': "cell s' r c = (if k \<and> r \<in> set rs then \<not> cell s1 r c else cell s1 r c)"
      using cs' [rule_format, OF that] by (auto simp: k_def)
    have i1: "cell s1 r c = (if k \<and> r = r0 then \<not> cell s r c else cell s r c)"
      using c1 [rule_format, OF that] by (auto simp: k_def)
    have "r \<noteq> r0" if "r \<in> set rs" using Cons.prems(2) that by auto
    then have "cell s' r c = (if k \<and> r \<in> set (r0 # rs) then \<not> cell s r c else cell s r c)"
      using i' i1 by auto
    then show ?thesis by (auto simp: k_def)
  qed
  then show ?case using s1 s' by simp
qed

lemma apply_mask_cells:
  assumes "grid_state base s"
  shows "\<exists>s'. apply_mask s = Returned s' \<and> grid_state base s'
           \<and> (\<forall>r c. in_grid base r c \<longrightarrow>
                 cell s' r c =
                   (if \<not> is_function_module base r c \<and> (r + c) mod 2 = 0
                    then \<not> cell s r c else cell s r c))"
proof -
  have n: "module_count s = module_count base" using grid_state_fields(1) [OF assms(1)] .
  have d: "distinct (py_range 0 (module_count base))" by (simp add: py_range_def)
  have r: "\<forall>r \<in> set (py_range 0 (module_count base)). 0 \<le> r \<and> r < module_count base"
    by (simp add: py_range_set)
  obtain s' where s': "for_each (py_range 0 (module_count base)) mask_row s = Returned s'"
      "grid_state base s'"
    and c: "\<forall>r c. in_grid base r c \<longrightarrow>
                 cell s' r c =
                   (if r \<in> set (py_range 0 (module_count base))
                       \<and> \<not> is_function_module base r c \<and> (r + c) mod 2 = 0
                    then \<not> cell s r c else cell s r c)"
    using mask_rows [OF assms d r] by blast
  have "cell s' r c =
      (if \<not> is_function_module base r c \<and> (r + c) mod 2 = 0
       then \<not> cell s r c else cell s r c)" if "in_grid base r c" for r c
  proof -
    have "r \<in> set (py_range 0 (module_count base))"
      using that by (simp add: py_range_set in_grid_def)
    then show ?thesis using c [rule_format, OF that] by simp
  qed
  then show ?thesis using s' by (simp add: apply_mask_def n)
qed

text \<open>
  C5. On every generator whose grid is square of the side \<open>module_count\<close>,
  \<^verbatim>\<open>_apply_mask\<close> returns, and applied to its own result it returns the generator it started
  from. One application inverts each module that is not a function module and has
  \<open>(row + col) mod 2 = 0\<close>, and leaves every other module, each function module among
  them, as it was.
\<close>

theorem apply_mask_twice:
  assumes "modules s = Some g" and "square_grid (module_count s) g"
  shows "\<exists>s1. apply_mask s = Returned s1 \<and> apply_mask s1 = Returned s
           \<and> (\<forall>row col. in_grid s row col \<longrightarrow>
                 cell s1 row col =
                   (if \<not> is_function_module s row col \<and> (row + col) mod 2 = 0
                    then \<not> cell s row col else cell s row col))"
proof -
  have gs: "grid_state s s" using assms by (rule consistent_grid_state)
  obtain s1 where s1: "apply_mask s = Returned s1" "grid_state s s1"
    and c1: "\<forall>r c. in_grid s r c \<longrightarrow>
                 cell s1 r c =
                   (if \<not> is_function_module s r c \<and> (r + c) mod 2 = 0
                    then \<not> cell s r c else cell s r c)"
    using apply_mask_cells [OF gs] by blast
  obtain s2 where s2: "apply_mask s1 = Returned s2" "grid_state s s2"
    and c2: "\<forall>r c. in_grid s r c \<longrightarrow>
                 cell s2 r c =
                   (if \<not> is_function_module s r c \<and> (r + c) mod 2 = 0
                    then \<not> cell s1 r c else cell s1 r c)"
    using apply_mask_cells [OF s1(2)] by blast
  have "s2 = s"
    using s2(2) gs
  proof (rule grid_state_ext)
    fix r c assume i: "in_grid s r c"
    show "cell s2 r c = cell s r c"
      using c1 [rule_format, OF i] c2 [rule_format, OF i] by simp
  qed
  then show ?thesis using s1(1) s2(1) c1 by blast
qed

theorem apply_mask_twice_witness:
  "\<exists>s1. apply_mask \<lparr>version = 1, error_correction = H,
            modules = Some (replicate 21 (replicate 21 True)), module_count = 21, data = [65]\<rparr>
          = Returned s1
       \<and> apply_mask s1 = Returned \<lparr>version = 1, error_correction = H,
            modules = Some (replicate 21 (replicate 21 True)), module_count = 21, data = [65]\<rparr>
       \<and> cell s1 10 10 = False \<and> cell s1 10 11 = True \<and> cell s1 0 0 = True"
proof -
  let ?s = "\<lparr>version = 1, error_correction = H,
            modules = Some (replicate 21 (replicate 21 True)), module_count = 21, data = [65]\<rparr>"
  have m: "modules ?s = Some (replicate 21 (replicate 21 True))" by simp
  have q: "square_grid (module_count ?s) (replicate 21 (replicate 21 True))"
    by (simp add: square_grid_def)
  have c: "cell ?s 10 10 = True" "cell ?s 10 11 = True" "cell ?s 0 0 = True"
    by (simp_all add: cell_def)
  have f: "\<not> is_function_module ?s 10 10" "\<not> is_function_module ?s 10 11"
    "is_function_module ?s 0 0"
    by (simp_all add: is_function_module_def)
  have i: "in_grid ?s 10 10" "in_grid ?s 10 11" "in_grid ?s 0 0"
    by (simp_all add: in_grid_def)
  obtain s1 where s1: "apply_mask ?s = Returned s1" "apply_mask s1 = Returned ?s"
    and c1: "\<forall>row col. in_grid ?s row col \<longrightarrow>
                 cell s1 row col =
                   (if \<not> is_function_module ?s row col \<and> (row + col) mod 2 = 0
                    then \<not> cell ?s row col else cell ?s row col)"
    using apply_mask_twice [OF m q] by blast
  have "cell s1 10 10 = False" "cell s1 10 11 = True" "cell s1 0 0 = True"
    using c1 i c f by simp_all
  then show ?thesis using s1 by blast
qed

section \<open>The renderers\<close>

lemma same_outcome_for_each:
  assumes "\<And>x s t. x \<in> set xs \<Longrightarrow> R s t \<Longrightarrow> same_outcome R (f x s) (g x t)"
    and "R s t"
  shows "same_outcome R (for_each xs f s) (for_each xs g t)"
  using assms
proof (induction xs arbitrary: s t)
  case Nil
  then show ?case by simp
next
  case (Cons x xs)
  have step: "same_outcome R (f x s) (g x t)"
    using Cons.prems by simp
  show ?case
  proof (cases "f x s")
    case (Raised e s1)
    then show ?thesis using step by (cases "g x t") simp_all
  next
    case (Returned s1)
    then obtain t1 where t1: "g x t = Returned t1" "R s1 t1"
      using step by (cases "g x t") simp_all
    have "same_outcome R (for_each xs f s1) (for_each xs g t1)"
      using Cons.IH [of s1 t1] Cons.prems(1) t1(2) by simp
    then show ?thesis using Returned t1(1) by simp
  qed
qed

lemma same_outcome_module:
  assumes "svg = map as_svg img"
  shows "same_outcome (\<lambda>img svg. svg = map as_svg img)
           (image_module qr color marker_shape dot_shape n row col img)
           (svg_module qr color marker_shape dot_shape n row col svg)"
  using assms
  by (cases "is_dark qr row col") (simp_all add: image_module_def svg_module_def Let_def)

lemma same_outcome_rows:
  "same_outcome (\<lambda>img svg. svg = map as_svg img)
     (for_each rows (\<lambda>row. for_each cols (image_module qr color marker_shape dot_shape n row)) [])
     (for_each rows (\<lambda>row. for_each cols (svg_module qr color marker_shape dot_shape n row)) [])"
  by (intro same_outcome_for_each same_outcome_module) simp_all

lemma create_qr_svg_follows_create_qr_image:
  "(case create_qr_image getrgb open_logo qr color marker_shape dot_shape logo_text of
      Inl e \<Rightarrow> create_qr_svg getrgb qr color marker_shape dot_shape = Inl e
    | Inr (img, logo) \<Rightarrow>
        create_qr_svg getrgb qr color marker_shape dot_shape = Inr (map as_svg img))"
proof -
  define c where "c = (if getrgb color then color else ''#000000'')"
  define n where "n = get_module_count qr"
  have "same_outcome (\<lambda>img svg. svg = map as_svg img)
     (for_each (py_range 0 n) (\<lambda>row. for_each (py_range 0 n)
        (image_module qr c marker_shape dot_shape n row)) [])
     (for_each (py_range 0 n) (\<lambda>row. for_each (py_range 0 n)
        (svg_module qr c marker_shape dot_shape n row)) [])"
    by (rule same_outcome_rows)
  then show ?thesis
    unfolding create_qr_image_def create_qr_svg_def Let_def c_def [symmetric] n_def [symmetric]
    by (cases "for_each (py_range 0 n) (\<lambda>row. for_each (py_range 0 n)
                  (image_module qr c marker_shape dot_shape n row)) []";
        cases "for_each (py_range 0 n) (\<lambda>row. for_each (py_range 0 n)
                  (svg_module qr c marker_shape dot_shape n row)) []")
       simp_all
qed

lemma is_dark_grid:
  assumes "grid_state s s"
  shows "is_dark s row col = Inr (in_grid s row col \<and> cell s row col)"
proof (cases "in_grid s row col")
  case True
  then show ?thesis
    using get_module_cell [OF assms True] by (simp add: is_dark_def in_grid_def)
next
  case False
  then show ?thesis by (auto simp: is_dark_def in_grid_def)
qed

lemma reachable_grid_state:
  assumes "reachable s" and "module_count s \<noteq> 0"
  shows "grid_state s s"
  using reachable_consistent [OF assms(1)] assms(2) by (auto intro: consistent_grid_state)

lemma image_module_drawn:
  assumes "grid_state s s"
  shows "\<exists>x. image_module s color marker_shape dot_shape n row col img
               = Returned (if in_grid s row col \<and> cell s row col then img @ [x] else img)
           \<and> drawing_module x = (row, col) \<and> drawing_fill x = color"
proof (cases "in_grid s row col \<and> cell s row col")
  case True
  then show ?thesis
    unfolding image_module_def is_dark_grid [OF assms] Let_def by auto
next
  case False
  then have "image_module s color marker_shape dot_shape n row col img = Returned img"
    unfolding image_module_def is_dark_grid [OF assms] by simp
  then show ?thesis using False by (auto intro: exI [of _ "Ellipse row col color"])
qed

lemma image_cols:
  assumes "grid_state s s" and "\<forall>x \<in> set img. drawing_fill x = color"
  shows "\<exists>img'. for_each cs (image_module s color marker_shape dot_shape n row) img = Returned img'
           \<and> (\<forall>x \<in> set img'. drawing_fill x = color)
           \<and> drawing_module ` set img' =
               drawing_module ` set img \<union> {(row, c) |c. c \<in> set cs \<and> in_grid s row c \<and> cell s row c}"
  using assms(2)
proof (induction cs arbitrary: img)
  case Nil
  then show ?case by simp
next
  case (Cons c0 cs)
  obtain x where x: "image_module s color marker_shape dot_shape n row c0 img
               = Returned (if in_grid s row c0 \<and> cell s row c0 then img @ [x] else img)"
      "drawing_module x = (row, c0)" "drawing_fill x = color"
    using image_module_drawn [OF assms(1)] by blast
  define img1 where "img1 = (if in_grid s row c0 \<and> cell s row c0 then img @ [x] else img)"
  have f1: "\<forall>x \<in> set img1. drawing_fill x = color"
    using Cons.prems x(3) by (simp add: img1_def)
  have m1: "drawing_module ` set img1 =
      drawing_module ` set img \<union> {(row, c) |c. c = c0 \<and> in_grid s row c \<and> cell s row c}"
    using x(2) by (auto simp: img1_def)
  obtain img' where i': "for_each cs (image_module s color marker_shape dot_shape n row) img1
        = Returned img'" "\<forall>x \<in> set img'. drawing_fill x = color"
      "drawing_module ` set img' =
         drawing_module ` set img1 \<union> {(row, c) |c. c \<in> set cs \<and> in_grid s row c \<and> cell s row c}"
    using Cons.IH [OF f1] by blast
  have "drawing_module ` set img' =
      drawing_module ` set img \<union> {(row, c) |c. c \<in> set (c0 # cs) \<and> in_grid s row c \<and> cell s row c}"
    unfolding i'(3) m1 by auto
  then show ?case using x(1) i'(1,2) by (simp add: img1_def)
qed

lemma image_rows:
  assumes "grid_state s s" and "\<forall>x \<in> set img. drawing_fill x = color"
  shows "\<exists>img'. for_each rs (\<lambda>row. for_each cs
                    (image_module s color marker_shape dot_shape n row)) img = Returned img'
           \<and> (\<forall>x \<in> set img'. drawing_fill x = color)
           \<and> drawing_module ` set img' =
               drawing_module ` set img
               \<union> {(r, c) |r c. r \<in> set rs \<and> c \<in> set cs \<and> in_grid s r c \<and> cell s r c}"
  using assms(2)
proof (induction rs arbitrary: img)
  case Nil
  then show ?case by simp
next
  case (Cons r0 rs)
  obtain img1 where i1: "for_each cs (image_module s color marker_shape dot_shape n r0) img
        = Returned img1" "\<forall>x \<in> set img1. drawing_fill x = color"
      "drawing_module ` set img1 =
         drawing_module ` set img \<union> {(r0, c) |c. c \<in> set cs \<and> in_grid s r0 c \<and> cell s r0 c}"
    using image_cols [OF assms(1) Cons.prems] by blast
  obtain img' where i': "for_each rs (\<lambda>row. for_each cs
                    (image_module s color marker_shape dot_shape n row)) img1 = Returned img'"
      "\<forall>x \<in> set img'. drawing_fill x = color"
      "drawing_module ` set img' =
         drawing_module ` set img1
         \<union> {(r, c) |r c. r \<in> set rs \<and> c \<in> set cs \<and> in_grid s r c \<and> cell s r c}"
    using Cons.IH [OF i1(2)] by blast
  have "drawing_module ` set img' =
      drawing_module ` set img
      \<union> {(r, c) |r c. r \<in> set (r0 # rs) \<and> c \<in> set cs \<and> in_grid s r c \<and> cell s r c}"
    unfolding i'(3) i1(3) by auto
  then show ?case using i1(1) i'(1,2) by simp
qed

lemma svg_fill_as_svg: "svg_fill (as_svg x) = drawing_fill x"
  by (cases x) simp_all

lemma renderers_on_grid:
  assumes "grid_state s s" and "module_count s \<noteq> 0"
  shows "\<exists>img. create_qr_image getrgb open_logo s color marker_shape dot_shape logo_text
                = Inr (img, case logo_text of None \<Rightarrow> None
                            | Some l \<Rightarrow> if l = [] then None else open_logo l)
           \<and> create_qr_svg getrgb s color marker_shape dot_shape = Inr (map as_svg img)
           \<and> (\<forall>x \<in> set img. drawing_fill x = (if getrgb color then color else ''#000000''))
           \<and> drawing_module ` set img = {(r, c). in_grid s r c \<and> cell s r c}"
proof -
  define c where "c = (if getrgb color then color else ''#000000'')"
  define n where "n = module_count s"
  obtain img where img: "for_each (py_range 0 n) (\<lambda>row. for_each (py_range 0 n)
        (image_module s c marker_shape dot_shape n row)) [] = Returned img"
      "\<forall>x \<in> set img. drawing_fill x = c"
      "drawing_module ` set img =
         drawing_module ` set ([] :: drawing list)
         \<union> {(r, c) |r c. r \<in> set (py_range 0 n) \<and> c \<in> set (py_range 0 n)
                \<and> in_grid s r c \<and> cell s r c}"
  proof -
    have "\<forall>x \<in> set ([] :: drawing list). drawing_fill x = c" by simp
    then show ?thesis
      using image_rows [OF assms(1), where img = "[]" and color = c and rs = "py_range 0 n"
          and cs = "py_range 0 n" and marker_shape = marker_shape and dot_shape = dot_shape
          and n = n] that
      by blast
  qed
  have "same_outcome (\<lambda>img svg. svg = map as_svg img)
     (for_each (py_range 0 n) (\<lambda>row. for_each (py_range 0 n)
        (image_module s c marker_shape dot_shape n row)) [])
     (for_each (py_range 0 n) (\<lambda>row. for_each (py_range 0 n)
        (svg_module s c marker_shape dot_shape n row)) [])"
    by (rule same_outcome_rows)
  then have svg: "for_each (py_range 0 n) (\<lambda>row. for_each (py_range 0 n)
        (svg_module s c marker_shape dot_shape n row)) [] = Returned (map as_svg img)"
    unfolding img(1)
    by (cases "for_each (py_range 0 n) (\<lambda>row. for_each (py_range 0 n)
        (svg_module s c marker_shape dot_shape n row)) []") simp_all
  have m: "drawing_module ` set img = {(r, c). in_grid s r c \<and> cell s r c}"
    unfolding img(3) by (auto simp: py_range_set in_grid_def n_def)
  have i: "create_qr_image getrgb open_logo s color marker_shape dot_shape logo_text
                = Inr (img, case logo_text of None \<Rightarrow> None
                            | Some l \<Rightarrow> if l = [] then None else open_logo l)"
    using assms(2) img(1)
    by (simp add: create_qr_image_def get_module_count_def c_def [symmetric] n_def [symmetric])
  have v: "create_qr_svg getrgb s color marker_shape dot_shape = Inr (map as_svg img)"
    using assms(2) svg
    by (simp add: create_qr_svg_def get_module_count_def c_def [symmetric] n_def [symmetric])
  show ?thesis using i v img(2) m unfolding c_def by blast
qed

text \<open>
  C8. On a finished symbol both renderers return, whatever the colour string. Every
  primitive they draw is filled with the string itself when the imaging library accepts it
  and with \<^verbatim>\<open>#000000\<close> when it does not, and the modules drawn are exactly the dark
  modules of the grid.
\<close>

theorem renderers_fall_back_to_black:
  assumes "reachable s" and "module_count s \<noteq> 0"
  shows "\<exists>img logo svg.
           create_qr_image getrgb open_logo s color marker_shape dot_shape logo_text
             = Inr (img, logo)
         \<and> create_qr_svg getrgb s color marker_shape dot_shape = Inr svg
         \<and> (\<forall>x \<in> set img. drawing_fill x = (if getrgb color then color else ''#000000''))
         \<and> (\<forall>y \<in> set svg. svg_fill y = (if getrgb color then color else ''#000000''))
         \<and> drawing_module ` set img = {(r, c). in_grid s r c \<and> cell s r c}
         \<and> svg = map as_svg img"
proof -
  have gs: "grid_state s s" using assms by (rule reachable_grid_state)
  obtain img where img:
      "create_qr_image getrgb open_logo s color marker_shape dot_shape logo_text
         = Inr (img, case logo_text of None \<Rightarrow> None
                     | Some l \<Rightarrow> if l = [] then None else open_logo l)"
      "create_qr_svg getrgb s color marker_shape dot_shape = Inr (map as_svg img)"
      "\<forall>x \<in> set img. drawing_fill x = (if getrgb color then color else ''#000000'')"
      "drawing_module ` set img = {(r, c). in_grid s r c \<and> cell s r c}"
    using renderers_on_grid [OF gs assms(2)] by blast
  have "\<forall>y \<in> set (map as_svg img). svg_fill y = (if getrgb color then color else ''#000000'')"
    using img(3) by (simp add: svg_fill_as_svg)
  then show ?thesis using img by blast
qed

theorem renderers_fall_back_to_black_witness:
  "\<exists>s' img logo svg.
      make (add_data [72, 105] (init 1 H)) = Returned s'
    \<and> create_qr_image (\<lambda>c. c \<noteq> ''invalid-color'') (\<lambda>l. None :: unit option) s'
         ''invalid-color'' ''circle'' ''square'' None = Inr (img, logo)
    \<and> create_qr_svg (\<lambda>c. c \<noteq> ''invalid-color'') s' ''invalid-color'' ''circle'' ''square''
         = Inr svg
    \<and> (\<forall>x \<in> set img. drawing_fill x = ''#000000'')
    \<and> (\<forall>y \<in> set svg. svg_fill y = ''#000000'')"
proof -
  let ?s = "add_data [72, 105] (init 1 H)"
  have d: "data ?s \<noteq> []" by (simp add: add_data_def)
  have e: "utf8_encode (data ?s) = Inr [72, 105]" by (simp add: add_data_def utf8_char_def)
  obtain s' where s': "make ?s = Returned s'"
    "grid_state (?s\<lparr>version := selected (int (length [72, 105 :: int])) (error_correction ?s),
        module_count := 4 * selected (int (length [72, 105 :: int])) (error_correction ?s) + 17\<rparr>) s'"
    using make_ok [OF d e refl] by blast
  have "selected (int (length [72, 105 :: int])) (error_correction ?s) \<in> {1..5}"
    by (rule selected_range)
  then have n: "module_count s' \<noteq> 0" using grid_state_fields(1) [OF s'(2)] by simp
  have r: "reachable s'"
    using reachable_make [OF reachable_add_data [OF reachable_init] s'(1)] .
  show ?thesis
    using s'(1) renderers_fall_back_to_black [OF r n, where getrgb = "\<lambda>c. c \<noteq> ''invalid-color''"
        and open_logo = "\<lambda>l. None :: unit option" and color = "''invalid-color''"
        and marker_shape = "''circle''" and dot_shape = "''square''" and logo_text = None]
    by auto
qed

section \<open>The order of data placement\<close>

lemma place_cells_direction:
  assumes "grid_state base (gen p)" and "1 \<le> col" and "col < module_count base"
  shows "\<exists>p'. for_each (py_range 0 2) (place_cell d col k) p = Returned p'
           \<and> grid_state base (gen p') \<and> direction p' = direction p"
proof -
  define P where "P = (\<lambda>q :: placing. grid_state base (gen q) \<and> direction q = direction p)"
  have step: "preserves P (place_cell d col k c)" if "c \<in> set (py_range 0 2)" for c
  proof (rule preservesI)
    fix q assume q: "P q"
    have c: "0 \<le> col - c" "col - c < module_count base"
      using that assms(2,3) by (simp_all add: py_range_set)
    have gq: "grid_state base (gen q)" using q by (simp add: P_def)
    show "\<exists>q'. place_cell d col k c q = Returned q' \<and> P q'"
      using place_cell_ok [OF gq c, of d k] q by (auto simp: P_def)
  qed
  have "P p" using assms(1) by (simp add: P_def)
  then have "\<exists>p'. for_each (py_range 0 2) (place_cell d col k) p = Returned p' \<and> P p'"
    using step by (rule for_each_ok)
  then show ?thesis by (simp add: P_def)
qed

text \<open>
  C3. The statement \<^verbatim>\<open>direction *= -1\<close> of \<^verbatim>\<open>_place_data\<close> belongs to the body of the loop
  over the rows: every row step of a sweep, at any column pair inside the grid, returns with
  the direction inverted. The direction is therefore inverted after each visited row (as
  many times per sweep as the symbol has rows), not once after all rows of the column pair.
\<close>

theorem place_row_inverts_direction:
  assumes "grid_state base (gen p)" and "1 \<le> col" and "col < module_count base"
  shows "\<exists>p'. place_row d col k p = Returned p' \<and> grid_state base (gen p')
           \<and> direction p' = - direction p"
  using place_cells_direction [OF assms, of d k] by (auto simp: place_row_def)

text \<open>
  The first sweep of a version 1 symbol (side 21, columns 20 and 19) starts upwards at row 20;
  the next row step goes downwards and visits row 1, the one after it upwards again, row 18.
\<close>

theorem place_row_inverts_direction_witness:
  "\<exists>p1 p2.
      place_row [0, 1, 0, 0] 20 0
        \<lparr>bit_index = 0, direction = - 1,
         gen = (init 1 H)\<lparr>module_count := 21, modules := Some (replicate 21 (replicate 21 False))\<rparr>\<rparr>
        = Returned p1
    \<and> sweep_row (- 1) 21 0 = 20
    \<and> direction p1 = 1 \<and> sweep_row (direction p1) 21 1 = 1
    \<and> place_row [0, 1, 0, 0] 20 1 p1 = Returned p2
    \<and> direction p2 = - 1 \<and> sweep_row (direction p2) 21 2 = 18"
proof -
  let ?G = "(init 1 H)\<lparr>module_count := 21, modules := Some (replicate 21 (replicate 21 False))\<rparr>"
  let ?p0 = "\<lparr>bit_index = 0, direction = - 1, gen = ?G\<rparr>"
  have g: "grid_state ?G (gen ?p0)"
    by (auto simp: grid_state_def square_grid_def
          intro!: exI [of _ "replicate 21 (replicate 21 False)"])
  have c: "(1::int) \<le> 20" "20 < module_count ?G" by simp_all
  obtain p1 where p1: "place_row [0, 1, 0, 0] 20 0 ?p0 = Returned p1" "grid_state ?G (gen p1)"
      "direction p1 = - direction ?p0"
    using place_row_inverts_direction [OF g c, of "[0, 1, 0, 0]" 0] by blast
  obtain p2 where p2: "place_row [0, 1, 0, 0] 20 1 p1 = Returned p2" "direction p2 = - direction p1"
    using place_row_inverts_direction [OF p1(2) c, of "[0, 1, 0, 0]" 1] by blast
  have "direction p1 = 1" "direction p2 = - 1" using p1(3) p2(2) by simp_all
  then show ?thesis using p1(1) p2(1) by (simp add: sweep_row_def)
qed

section \<open>The modules that each stage assigns\<close>

lemma writesI:
  assumes "\<And>s. grid_state base s \<Longrightarrow>
     \<exists>s'. f s = Returned s' \<and> grid_state base s'
        \<and> (\<forall>r c. in_grid base r c \<longrightarrow> cell s' r c = (if W r c then V r c else cell s r c))"
  shows "writes base W V f"
  using assms by (simp add: writes_def)

lemma writesD:
  assumes "writes base W V f" and "grid_state base s"
  shows "\<exists>s'. f s = Returned s' \<and> grid_state base s'
        \<and> (\<forall>r c. in_grid base r c \<longrightarrow> cell s' r c = (if W r c then V r c else cell s r c))"
  using assms unfolding writes_def by simp

lemma writes_Returned: "writes base (\<lambda>r c. False) V Returned"
  by (rule writesI) simp

lemma writes_cong:
  assumes "writes base W V f'" and "\<And>s. grid_state base s \<Longrightarrow> f s = f' s"
    and "\<And>r c. in_grid base r c \<Longrightarrow> W' r c = W r c"
  shows "writes base W' V f"
proof (rule writesI)
  fix s assume gs: "grid_state base s"
  obtain s' where s': "f' s = Returned s'" "grid_state base s'"
    and c: "\<forall>r c. in_grid base r c \<longrightarrow> cell s' r c = (if W r c then V r c else cell s r c)"
    using writesD [OF assms(1) gs] by blast
  have "\<forall>r c. in_grid base r c \<longrightarrow> cell s' r c = (if W' r c then V r c else cell s r c)"
    using c assms(3) by simp
  then show "\<exists>s'. f s = Returned s' \<and> grid_state base s'
        \<and> (\<forall>r c. in_grid base r c \<longrightarrow> cell s' r c = (if W' r c then V r c else cell s r c))"
    using s' assms(2) [OF gs] by auto
qed

lemma writes_set_module:
  assumes "in_grid base r0 c0" and "v = V r0 c0"
  shows "writes base (\<lambda>r c. r = r0 \<and> c = c0) V (set_module r0 c0 v)"
proof (rule writesI)
  fix s assume gs: "grid_state base s"
  have "\<forall>r c. in_grid base r c \<longrightarrow>
      cell (stored r0 c0 v s) r c = (if r = r0 \<and> c = c0 then V r c else cell s r c)"
    using cell_stored [OF gs assms(1)] assms(2) by auto
  then show "\<exists>s'. set_module r0 c0 v s = Returned s' \<and> grid_state base s'
        \<and> (\<forall>r c. in_grid base r c \<longrightarrow>
              cell s' r c = (if r = r0 \<and> c = c0 then V r c else cell s r c))"
    using set_module_stored [OF gs assms(1)] grid_state_stored [OF gs] by auto
qed

lemma writes_guarded:
  assumes "\<And>s. grid_state base s \<Longrightarrow> f s = (if b then set_module r0 c0 v s else Returned s)"
    and "b \<Longrightarrow> in_grid base r0 c0" and "b \<Longrightarrow> v = V r0 c0"
  shows "writes base (\<lambda>r c. b \<and> r = r0 \<and> c = c0) V f"
proof (cases b)
  case True
  have "writes base (\<lambda>r c. r = r0 \<and> c = c0) V (set_module r0 c0 v)"
    using assms(2,3) True by (intro writes_set_module) simp_all
  then show ?thesis
    using True assms(1) by (rule_tac writes_cong) simp_all
next
  case False
  have "writes base (\<lambda>r c. False) V Returned" by (rule writes_Returned)
  then show ?thesis
    using False assms(1) by (rule_tac writes_cong) simp_all
qed

lemma writes_then_run:
  assumes "writes base W1 V f" and "writes base W2 V g"
  shows "writes base (\<lambda>r c. W1 r c \<or> W2 r c) V (\<lambda>s. then_run (f s) g)"
proof (rule writesI)
  fix s assume gs: "grid_state base s"
  obtain s1 where s1: "f s = Returned s1" "grid_state base s1"
    and c1: "\<forall>r c. in_grid base r c \<longrightarrow> cell s1 r c = (if W1 r c then V r c else cell s r c)"
    using writesD [OF assms(1) gs] by blast
  obtain s2 where s2: "g s1 = Returned s2" "grid_state base s2"
    and c2: "\<forall>r c. in_grid base r c \<longrightarrow> cell s2 r c = (if W2 r c then V r c else cell s1 r c)"
    using writesD [OF assms(2) s1(2)] by blast
  have "\<forall>r c. in_grid base r c \<longrightarrow>
      cell s2 r c = (if W1 r c \<or> W2 r c then V r c else cell s r c)"
    using c1 c2 by simp
  then show "\<exists>s'. then_run (f s) g = Returned s' \<and> grid_state base s'
        \<and> (\<forall>r c. in_grid base r c \<longrightarrow>
              cell s' r c = (if W1 r c \<or> W2 r c then V r c else cell s r c))"
    using s1(1) s2 by auto
qed

lemma writes_for_each:
  assumes "\<And>x. x \<in> set xs \<Longrightarrow> writes base (W x) V (body x)"
  shows "writes base (\<lambda>r c. \<exists>x \<in> set xs. W x r c) V (for_each xs body)"
  using assms
proof (induction xs)
  case Nil
  show ?case by (rule writesI) simp
next
  case (Cons x xs)
  have hd: "writes base (W x) V (body x)" using Cons.prems by simp
  have tl: "writes base (\<lambda>r c. \<exists>x \<in> set xs. W x r c) V (for_each xs body)"
    using Cons by simp
  show ?case
  proof (rule writesI)
    fix s assume gs: "grid_state base s"
    obtain s1 where s1: "body x s = Returned s1" "grid_state base s1"
      and c1: "\<forall>r c. in_grid base r c \<longrightarrow>
                 cell s1 r c = (if W x r c then V r c else cell s r c)"
      using writesD [OF hd gs] by blast
    obtain s2 where s2: "for_each xs body s1 = Returned s2" "grid_state base s2"
      and c2: "\<forall>r c. in_grid base r c \<longrightarrow>
                 cell s2 r c = (if \<exists>x \<in> set xs. W x r c then V r c else cell s1 r c)"
      using writesD [OF tl s1(2)] by blast
    have "\<forall>r c. in_grid base r c \<longrightarrow>
        cell s2 r c = (if \<exists>y \<in> set (x # xs). W y r c then V r c else cell s r c)"
      using c1 c2 by simp
    then show "\<exists>s'. for_each (x # xs) body s = Returned s' \<and> grid_state base s'
          \<and> (\<forall>r c. in_grid base r c \<longrightarrow>
                cell s' r c = (if \<exists>y \<in> set (x # xs). W y r c then V r c else cell s r c))"
      using s1(1) s2 by auto
  qed
qed


lemma writes_set_if:
  assumes "b \<Longrightarrow> in_grid base r0 c0" and "b \<Longrightarrow> v = V r0 c0"
  shows "writes base (\<lambda>r c. b \<and> r = r0 \<and> c = c0) V (set_if b r0 c0 v)"
  using assms by (intro writes_guarded) (simp_all add: set_if_def)

lemma ex_shifted:
  "(\<exists>r \<in> set (py_range a b). \<exists>c \<in> set (py_range a' b').
       P r c \<and> r' = row + r \<and> c' = col + c)
   \<longleftrightarrow> (a \<le> r' - row \<and> r' - row < b \<and> a' \<le> c' - col \<and> c' - col < b'
        \<and> P (r' - row) (c' - col))"
proof
  assume "\<exists>r \<in> set (py_range a b). \<exists>c \<in> set (py_range a' b').
       P r c \<and> r' = row + r \<and> c' = col + c"
  then obtain r c where "a \<le> r" "r < b" "a' \<le> c" "c < b'" "P r c" "r' = row + r" "c' = col + c"
    by (auto simp: py_range_set)
  then show "a \<le> r' - row \<and> r' - row < b \<and> a' \<le> c' - col \<and> c' - col < b'
        \<and> P (r' - row) (c' - col)"
    by simp
next
  assume R: "a \<le> r' - row \<and> r' - row < b \<and> a' \<le> c' - col \<and> c' - col < b'
        \<and> P (r' - row) (c' - col)"
  show "\<exists>r \<in> set (py_range a b). \<exists>c \<in> set (py_range a' b').
       P r c \<and> r' = row + r \<and> c' = col + c"
    using R by (intro bexI [of _ "r' - row"] bexI [of _ "c' - col"]) (simp_all add: py_range_set)
qed

lemma writes_finder_cell:
  assumes "0 \<le> row" "row + 7 \<le> module_count base" "0 \<le> col" "col + 7 \<le> module_count base"
    and "0 \<le> r" "r < 7" "0 \<le> c" "c < 7"
  shows "writes base (\<lambda>r' c'. finder_ring r c \<and> r' = row + r \<and> c' = col + c)
           (\<lambda>r c. True) (finder_cell row col r c)"
proof (rule writes_guarded)
  fix s assume "grid_state base s"
  then have "module_count s = module_count base" by (rule grid_state_fields(1))
  then show "finder_cell row col r c s =
      (if finder_ring r c then set_module (row + r) (col + c) True s else Returned s)"
    using assms by (auto simp: finder_cell_def finder_ring_def)
next
  show "in_grid base (row + r) (col + c)" using assms by (simp add: in_grid_def)
qed simp

lemma writes_finder_block:
  assumes "0 \<le> row" "row + 7 \<le> module_count base" "0 \<le> col" "col + 7 \<le> module_count base"
  shows "writes base (\<lambda>r c. finder_ring (r - row) (c - col)) (\<lambda>r c. True)
           (for_each (py_range 0 7) (\<lambda>r. for_each (py_range 0 7) (finder_cell row col r)))"
proof -
  have "writes base
          (\<lambda>r' c'. \<exists>r \<in> set (py_range 0 7). \<exists>c \<in> set (py_range 0 7).
                      finder_ring r c \<and> r' = row + r \<and> c' = col + c)
          (\<lambda>r c. True)
          (for_each (py_range 0 7) (\<lambda>r. for_each (py_range 0 7) (finder_cell row col r)))"
    using assms by (intro writes_for_each writes_finder_cell) (simp_all add: py_range_set)
  note w = this
  have eq: "finder_ring (r' - row) (c' - col) \<longleftrightarrow>
      (\<exists>r \<in> set (py_range 0 7). \<exists>c \<in> set (py_range 0 7).
          finder_ring r c \<and> r' = row + r \<and> c' = col + c)" for r' c'
    unfolding ex_shifted by (auto simp: finder_ring_def)
  show ?thesis
    by (rule writes_cong [OF w]) (simp_all add: eq)
qed

lemma place_finder_patterns_writes:
  assumes "14 \<le> module_count base"
  shows "writes base (finder_at (module_count base)) (\<lambda>r c. True) place_finder_patterns"
proof -
  let ?n = "module_count base"
  let ?block = "\<lambda>x. for_each (py_range 0 7)
                  (\<lambda>r. for_each (py_range 0 7) (finder_cell (fst x) (snd x) r))"
  have "writes base (\<lambda>r c. \<exists>x \<in> set [(0, 0), (?n - 7, 0), (0, ?n - 7)].
                       finder_ring (r - fst x) (c - snd x)) (\<lambda>r c. True)
          (for_each [(0, 0), (?n - 7, 0), (0, ?n - 7)] ?block)"
    using assms by (intro writes_for_each writes_finder_block) auto
  then show ?thesis
  proof (rule writes_cong)
    fix s assume "grid_state base s"
    then have "module_count s = ?n" by (rule grid_state_fields(1))
    then show "place_finder_patterns s = for_each [(0, 0), (?n - 7, 0), (0, ?n - 7)] ?block s"
      by (simp add: place_finder_patterns_def split_def)
  qed (simp add: finder_at_def)
qed

lemma writes_separator_cell:
  assumes "0 \<le> row" "0 \<le> col" "0 \<le> r" "r < 8" "0 \<le> c" "c < 8"
  shows "writes base
           (\<lambda>r' c'. (row + r < module_count base \<and> col + c < module_count base
                       \<and> (r = 7 \<or> c = 7)) \<and> r' = row + r \<and> c' = col + c)
           (\<lambda>r c. False) (separator_cell row col r c)"
proof (rule writes_guarded)
  fix s assume "grid_state base s"
  then have "module_count s = module_count base" by (rule grid_state_fields(1))
  then show "separator_cell row col r c s =
      (if row + r < module_count base \<and> col + c < module_count base \<and> (r = 7 \<or> c = 7)
       then set_module (row + r) (col + c) False s else Returned s)"
    by (simp add: separator_cell_def)
next
  assume "row + r < module_count base \<and> col + c < module_count base \<and> (r = 7 \<or> c = 7)"
  then show "in_grid base (row + r) (col + c)" using assms by (simp add: in_grid_def)
qed simp

lemma writes_separator_block:
  assumes "0 \<le> row" "0 \<le> col"
  shows "writes base (\<lambda>r c. r < module_count base \<and> c < module_count base
                          \<and> edge (r - row) (c - col)) (\<lambda>r c. False)
           (for_each (py_range 0 8) (\<lambda>r. for_each (py_range 0 8) (separator_cell row col r)))"
proof -
  let ?n = "module_count base"
  have w: "writes base
          (\<lambda>r' c'. \<exists>r \<in> set (py_range 0 8). \<exists>c \<in> set (py_range 0 8).
                      (row + r < ?n \<and> col + c < ?n \<and> (r = 7 \<or> c = 7))
                      \<and> r' = row + r \<and> c' = col + c)
          (\<lambda>r c. False)
          (for_each (py_range 0 8) (\<lambda>r. for_each (py_range 0 8) (separator_cell row col r)))"
    using assms by (intro writes_for_each writes_separator_cell) (simp_all add: py_range_set)
  have eq: "(r' < ?n \<and> c' < ?n \<and> edge (r' - row) (c' - col)) \<longleftrightarrow>
      (\<exists>r \<in> set (py_range 0 8). \<exists>c \<in> set (py_range 0 8).
          (row + r < ?n \<and> col + c < ?n \<and> (r = 7 \<or> c = 7))
          \<and> r' = row + r \<and> c' = col + c)" for r' c'
    unfolding ex_shifted by (auto simp: edge_def)
  show ?thesis
    by (rule writes_cong [OF w]) (simp_all add: eq)
qed

lemma place_separators_writes:
  assumes "7 \<le> module_count base"
  shows "writes base (separator_at (module_count base)) (\<lambda>r c. False) place_separators"
proof -
  let ?n = "module_count base"
  let ?block = "\<lambda>x. for_each (py_range 0 8)
                  (\<lambda>r. for_each (py_range 0 8) (separator_cell (fst x) (snd x) r))"
  have "writes base (\<lambda>r c. \<exists>x \<in> set [(0, 0), (?n - 7, 0), (0, ?n - 7)].
                       r < ?n \<and> c < ?n \<and> edge (r - fst x) (c - snd x)) (\<lambda>r c. False)
          (for_each [(0, 0), (?n - 7, 0), (0, ?n - 7)] ?block)"
    using assms by (intro writes_for_each writes_separator_block) auto
  then show ?thesis
  proof (rule writes_cong)
    fix s assume "grid_state base s"
    then have "module_count s = ?n" by (rule grid_state_fields(1))
    then show "place_separators s = for_each [(0, 0), (?n - 7, 0), (0, ?n - 7)] ?block s"
      by (simp add: place_separators_def split_def)
  qed (auto simp: separator_at_def)
qed

lemma even_6_plus: "((6::int) + i) mod 2 = i mod 2" "(i + (6::int)) mod 2 = i mod 2"
  by presburger+

lemma writes_timing_step:
  assumes "8 \<le> i" "i < module_count base - 8"
  shows "writes base (\<lambda>r c. (r = 6 \<and> c = i) \<or> (r = i \<and> c = 6)) (\<lambda>r c. (r + c) mod 2 = 0)
           (timing_step i)"
proof -
  have "writes base (\<lambda>r c. (r = 6 \<and> c = i) \<or> (r = i \<and> c = 6)) (\<lambda>r c. (r + c) mod 2 = 0)
          (\<lambda>s. then_run (set_module 6 i (i mod 2 = 0) s) (set_module i 6 (i mod 2 = 0)))"
    using assms by (intro writes_then_run writes_set_module) (simp_all add: in_grid_def even_6_plus)
  then show ?thesis
    by (rule writes_cong) (simp_all add: timing_step_def)
qed

lemma place_timing_patterns_writes:
  "writes base (timing_at (module_count base)) (\<lambda>r c. (r + c) mod 2 = 0) place_timing_patterns"
proof -
  let ?n = "module_count base"
  have "writes base (\<lambda>r c. \<exists>i \<in> set (py_range 8 (?n - 8)). (r = 6 \<and> c = i) \<or> (r = i \<and> c = 6))
          (\<lambda>r c. (r + c) mod 2 = 0) (for_each (py_range 8 (?n - 8)) timing_step)"
    by (intro writes_for_each writes_timing_step) (simp_all add: py_range_set)
  then show ?thesis
  proof (rule writes_cong)
    fix s assume "grid_state base s"
    then have "module_count s = ?n" by (rule grid_state_fields(1))
    then show "place_timing_patterns s = for_each (py_range 8 (?n - 8)) timing_step s"
      by (simp add: place_timing_patterns_def)
  qed (auto simp: timing_at_def py_range_set)
qed

lemma place_dark_module_writes:
  assumes "module_count base = 4 * version base + 17" and "1 \<le> version base"
  shows "writes base (dark_at (module_count base) (version base)) (\<lambda>r c. True) place_dark_module"
proof -
  have "writes base (\<lambda>r c. 21 < module_count base \<and> r = 4 * version base + 9 \<and> c = 8)
          (\<lambda>r c. True) place_dark_module"
  proof (rule writes_guarded)
    fix s assume "grid_state base s"
    then have "module_count s = module_count base" "version s = version base"
      by (rule grid_state_fields)+
    then show "place_dark_module s =
        (if 21 < module_count base then set_module (4 * version base + 9) 8 True s else Returned s)"
      by (simp add: place_dark_module_def)
  next
    show "in_grid base (4 * version base + 9) 8" using assms by (simp add: in_grid_def)
  qed simp
  then show ?thesis
    by (rule writes_cong) (simp_all add: dark_at_def)
qed

lemma py_range_0_15: "py_range 0 15 = [0, 1, 2, 3, 4, 5, 6, 7, 8, 9, 10, 11, 12, 13, 14]"
  by (simp add: py_range_def upto.simps)

lemma format_bit:
  assumes "0 \<le> i" and "i < 15"
  shows "(drop_bit (nat i) (generate_format_info s) AND 1 \<noteq> 0) \<longleftrightarrow>
           (i = 3 \<and> (error_correction s = L \<or> error_correction s = Q))
         \<or> (i = 4 \<and> (error_correction s = Q \<or> error_correction s = H))"
proof -
  have "i \<in> set (py_range 0 15)" using assms by (simp add: py_range_set)
  then have i: "i \<in> set [0, 1, 2, 3, 4, 5, 6, 7, 8, 9, 10, 11, 12, 13, 14]"
    by (simp only: py_range_0_15)
  have f: "generate_format_info s = 8 * error_level_bits (error_correction s)"
    by (simp add: generate_format_info_def push_bit_eq_mult)
  show ?thesis
  proof (cases "error_correction s")
    case L
    then show ?thesis using i by (auto simp: f drop_bit_eq_div and_one_eq)
  next
    case M
    then show ?thesis using i by (auto simp: f drop_bit_eq_div and_one_eq)
  next
    case Q
    then show ?thesis using i by (auto simp: f drop_bit_eq_div and_one_eq)
  next
    case H
    then show ?thesis using i by (auto simp: f drop_bit_eq_div and_one_eq)
  qed
qed

lemma writes_format_step:
  assumes "21 \<le> module_count base" and "0 \<le> i" and "i < 15"
    and "fbit = (drop_bit (nat i) (generate_format_info base) AND 1 \<noteq> 0)"
  shows "writes base
           (\<lambda>r c. (i < 6 \<and> ((r = 8 \<and> c = i) \<or> (r = module_count base - 1 - i \<and> c = 8)))
                \<or> (i = 6 \<and> ((r = 8 \<and> c = 7) \<or> (r = module_count base - 1 \<and> c = 8)))
                \<or> (i = 7 \<and> r = 8 \<and> c = 8)
                \<or> (i = 8 \<and> ((r = 7 \<and> c = 8) \<or> (r = 8 \<and> c = module_count base - 8)))
                \<or> (9 \<le> i \<and> ((r = 14 - i \<and> c = 8) \<or> (r = 8 \<and> c = module_count base - 15 + i))))
           (format_value (error_correction base) (module_count base))
           (format_step (generate_format_info base) i)"
proof -
  let ?n = "module_count base"
  let ?V = "format_value (error_correction base) ?n"
  have b: "fbit \<longleftrightarrow> (i = 3 \<and> (error_correction base = L \<or> error_correction base = Q))
         \<or> (i = 4 \<and> (error_correction base = Q \<or> error_correction base = H))"
    unfolding assms(4) using assms(2,3) by (rule format_bit)
  have n: "module_count s = ?n" if "grid_state base s" for s
    using that by (rule grid_state_fields(1))
  consider "i < 6" | "i = 6" | "i = 7" | "i = 8" | "9 \<le> i" using assms(2) by arith
  then show ?thesis
  proof cases
    case 1
    have "writes base (\<lambda>r c. (True \<and> r = 8 \<and> c = i) \<or> (True \<and> r = ?n - 1 - i \<and> c = 8)) ?V
            (\<lambda>s. then_run (set_if True 8 i fbit s) (set_if True (?n - 1 - i) 8 fbit))"
      using assms(1,2) 1 b
      by (intro writes_then_run writes_set_if) (auto simp: in_grid_def format_value_def)
    then show ?thesis
      using 1 assms(1,2,4) by (rule_tac writes_cong) (auto simp: format_step_def Let_def n)
  next
    case 2
    have "writes base (\<lambda>r c. (True \<and> r = 8 \<and> c = 7) \<or> (True \<and> r = ?n - 1 \<and> c = 8)) ?V
            (\<lambda>s. then_run (set_if True 8 7 fbit s) (set_if True (?n - 1) 8 fbit))"
      using assms(1,2) 2 b
      by (intro writes_then_run writes_set_if) (auto simp: in_grid_def format_value_def)
    then show ?thesis
      using 2 assms(1,2,4) by (rule_tac writes_cong) (auto simp: format_step_def Let_def n)
  next
    case 3
    have "writes base (\<lambda>r c. (True \<and> r = 8 \<and> c = 8) \<or> (False \<and> r = ?n \<and> c = 8)) ?V
            (\<lambda>s. then_run (set_if True 8 8 fbit s) (set_if False ?n 8 fbit))"
      using assms(1,2) 3 b
      by (intro writes_then_run writes_set_if) (auto simp: in_grid_def format_value_def)
    then show ?thesis
      using 3 assms(1,2,4) by (rule_tac writes_cong) (auto simp: format_step_def Let_def n)
  next
    case 4
    have "writes base (\<lambda>r c. (True \<and> r = 7 \<and> c = 8) \<or> (True \<and> r = 8 \<and> c = ?n - 8)) ?V
            (\<lambda>s. then_run (set_if True 7 8 fbit s) (set_if True 8 (?n - 8) fbit))"
      using assms(1,2) 4 b
      by (intro writes_then_run writes_set_if) (auto simp: in_grid_def format_value_def)
    then show ?thesis
      using 4 assms(1,2,4) by (rule_tac writes_cong) (auto simp: format_step_def Let_def n)
  next
    case 5
    have "writes base (\<lambda>r c. (True \<and> r = 14 - i \<and> c = 8) \<or> (True \<and> r = 8 \<and> c = ?n - 15 + i)) ?V
            (\<lambda>s. then_run (set_if True (14 - i) 8 fbit s) (set_if True 8 (?n - 15 + i) fbit))"
      using assms(1,2,3) 5 b
      by (intro writes_then_run writes_set_if) (auto simp: in_grid_def format_value_def)
    then show ?thesis
      using 5 assms(1,2,3,4) by (rule_tac writes_cong) (auto simp: format_step_def Let_def n)
  qed
qed

lemma place_format_info_writes:
  assumes "21 \<le> module_count base"
  shows "writes base (format_at (module_count base))
           (format_value (error_correction base) (module_count base)) place_format_info"
proof -
  let ?n = "module_count base"
  let ?W = "\<lambda>i r c. (i < 6 \<and> ((r = 8 \<and> c = i) \<or> (r = ?n - 1 - i \<and> c = 8)))
                \<or> (i = 6 \<and> ((r = 8 \<and> c = 7) \<or> (r = ?n - 1 \<and> c = 8)))
                \<or> (i = 7 \<and> r = 8 \<and> c = 8)
                \<or> (i = 8 \<and> ((r = 7 \<and> c = 8) \<or> (r = 8 \<and> c = ?n - 8)))
                \<or> (9 \<le> i \<and> ((r = 14 - i \<and> c = 8) \<or> (r = 8 \<and> c = ?n - 15 + i)))"
  have w: "writes base (\<lambda>r c. \<exists>i \<in> set (py_range 0 15). ?W i r c)
          (format_value (error_correction base) ?n)
          (for_each (py_range 0 15) (format_step (generate_format_info base)))"
    using assms by (intro writes_for_each writes_format_step) (simp_all add: py_range_set)
  have eq: "format_at ?n r c \<longleftrightarrow> (\<exists>i \<in> set (py_range 0 15). ?W i r c)" for r c
  proof
    assume "\<exists>i \<in> set (py_range 0 15). ?W i r c"
    then show "format_at ?n r c"
      by (auto simp: format_at_def py_range_set)
  next
    assume "format_at ?n r c"
    then consider "r = 8" "0 \<le> c" "c \<le> 5" | "r = 8" "c = 7" | "r = 8" "c = 8"
      | "r = 8" "c = ?n - 8" | "r = 8" "?n - 6 \<le> c" "c \<le> ?n - 1"
      | "c = 8" "0 \<le> r" "r \<le> 5" | "c = 8" "r = 7" | "c = 8" "?n - 6 \<le> r" "r \<le> ?n - 1"
      unfolding format_at_def by blast
    then show "\<exists>i \<in> set (py_range 0 15). ?W i r c"
    proof cases
      case 1 then show ?thesis by (intro bexI [of _ c]) (simp_all add: py_range_set)
    next
      case 2 then show ?thesis by (intro bexI [of _ 6]) (simp_all add: py_range_set)
    next
      case 3 then show ?thesis by (intro bexI [of _ 7]) (simp_all add: py_range_set)
    next
      case 4 then show ?thesis by (intro bexI [of _ 8]) (simp_all add: py_range_set)
    next
      case 5 then show ?thesis by (intro bexI [of _ "c - ?n + 15"]) (simp_all add: py_range_set)
    next
      case 6 then show ?thesis by (intro bexI [of _ "14 - r"]) (simp_all add: py_range_set)
    next
      case 7 then show ?thesis by (intro bexI [of _ 8]) (simp_all add: py_range_set)
    next
      case 8 then show ?thesis by (intro bexI [of _ "?n - 1 - r"]) (simp_all add: py_range_set)
    qed
  qed
  show ?thesis
  proof (rule writes_cong [OF w])
    fix s assume gs: "grid_state base s"
    have "generate_format_info s = generate_format_info base"
      using grid_state_fields(3) [OF gs] by (simp add: generate_format_info_def)
    then show "place_format_info s =
        for_each (py_range 0 15) (format_step (generate_format_info base)) s"
      by (simp add: place_format_info_def)
  qed (simp add: eq)
qed

lemma allocate_light:
  assumes "version s \<in> {1..5}"
  shows "\<exists>s'. allocate s = Returned s'
           \<and> grid_state (s\<lparr>module_count := 4 * version s + 17\<rparr>) s'
           \<and> (\<forall>r c. in_grid (s\<lparr>module_count := 4 * version s + 17\<rparr>) r c \<longrightarrow> \<not> cell s' r c)"
proof -
  let ?n = "4 * version s + 17"
  obtain cap where "version_info (version s) = Some (?n, cap)"
    using version_info_dom [OF assms] by blast
  then have a: "allocate s =
      Returned (s\<lparr>module_count := ?n, modules := Some (replicate (nat ?n) (replicate (nat ?n) False))\<rparr>)"
    by (simp add: allocate_def)
  have g: "grid_state (s\<lparr>module_count := ?n\<rparr>)
      (s\<lparr>module_count := ?n, modules := Some (replicate (nat ?n) (replicate (nat ?n) False))\<rparr>)"
    by (auto simp: grid_state_def square_grid_def
          intro!: exI [of _ "replicate (nat ?n) (replicate (nat ?n) False)"])
  have "\<not> cell (s\<lparr>module_count := ?n, modules := Some (replicate (nat ?n) (replicate (nat ?n) False))\<rparr>) r c"
    if "in_grid (s\<lparr>module_count := ?n\<rparr>) r c" for r c
    using that by (simp add: cell_def in_grid_def)
  then show ?thesis using a g by simp
qed

lemma place_cell_frame:
  assumes "grid_state base (gen p)" and "0 \<le> col - c" and "col - c < module_count base"
  shows "\<exists>p'. place_cell d col k c p = Returned p' \<and> grid_state base (gen p')
           \<and> (\<forall>r c'. in_grid base r c' \<longrightarrow> is_function_module base r c' \<longrightarrow>
                 cell (gen p') r c' = cell (gen p) r c')"
proof -
  let ?row = "sweep_row (direction p) (module_count base) k"
  have n: "module_count (gen p) = module_count base"
    using grid_state_fields(1) [OF assms(1)] .
  have pos: "0 < module_count base" using assms(2,3) by simp
  have ig: "in_grid base ?row (col - c)"
    using sweep_row_range [OF pos] assms(2,3) by (simp add: in_grid_def)
  have fm: "is_function_module (gen p) ?row (col - c) = is_function_module base ?row (col - c)"
    using assms(1) by (rule is_function_module_grid_state)
  show ?thesis
  proof (cases "is_function_module base ?row (col - c) \<or> \<not> bit_index p < length d")
    case True
    then have "place_cell d col k c p = Returned p"
      using pos by (auto simp: place_cell_def Let_def n fm)
    then show ?thesis using assms(1) by simp
  next
    case False
    let ?s = "stored ?row (col - c) (d ! bit_index p \<noteq> 0) (gen p)"
    have "place_cell d col k c p = Returned (p\<lparr>gen := ?s, bit_index := bit_index p + 1\<rparr>)"
      using False pos set_module_stored [OF assms(1) ig]
      by (simp add: place_cell_def Let_def n fm)
    moreover have "grid_state base ?s" using assms(1) by (rule grid_state_stored)
    moreover have "cell ?s r c' = cell (gen p) r c'"
      if "in_grid base r c'" "is_function_module base r c'" for r c'
      using cell_stored [OF assms(1) ig that(1)] that(2) False by auto
    ultimately show ?thesis by simp
  qed
qed

lemma place_data_frame:
  assumes "grid_state base s"
  shows "\<exists>s'. place_data d s = Returned s' \<and> grid_state base s'
           \<and> (\<forall>r c. in_grid base r c \<longrightarrow> is_function_module base r c \<longrightarrow>
                 cell s' r c = cell s r c)"
proof -
  define P where "P = (\<lambda>q :: placing. grid_state base (gen q)
      \<and> (\<forall>r c. in_grid base r c \<longrightarrow> is_function_module base r c \<longrightarrow>
             cell (gen q) r c = cell s r c))"
  have n: "module_count s = module_count base"
    using grid_state_fields(1) [OF assms] .
  have cell_step: "preserves P (place_cell d col k c)"
    if "0 \<le> col - c" "col - c < module_count base" for col k c
  proof (rule preservesI)
    fix q assume q: "P q"
    then have gq: "grid_state base (gen q)" by (simp add: P_def)
    show "\<exists>q'. place_cell d col k c q = Returned q' \<and> P q'"
      using place_cell_frame [OF gq that, of d k] q by (auto simp: P_def)
  qed
  have row_step: "preserves P (place_row d col k)"
    if "1 \<le> col" "col < module_count base" for col k
  proof (rule preservesI)
    fix q assume q: "P q"
    have "\<exists>q'. for_each (py_range 0 2) (place_cell d col k) q = Returned q' \<and> P q'"
      using q
    proof (rule for_each_ok)
      fix c assume "c \<in> set (py_range 0 2)"
      then show "preserves P (place_cell d col k c)"
        using that by (intro cell_step) (simp_all add: py_range_set)
    qed
    then show "\<exists>q'. place_row d col k q = Returned q' \<and> P q'"
      by (auto simp: place_row_def P_def)
  qed
  have sweep_step: "preserves P (place_sweep d col0)"
    if "1 \<le> col0" "col0 < module_count base" for col0
  proof (rule preservesI)
    fix q assume q: "P q"
    show "\<exists>q'. place_sweep d col0 q = Returned q' \<and> P q'"
      unfolding place_sweep_def Let_def
      using q
    proof (rule for_each_ok)
      fix k
      show "preserves P (place_row d (if col0 = 6 then col0 - 1 else col0) k)"
        using that by (intro row_step) simp_all
    qed
  qed
  have "P \<lparr>bit_index = 0, direction = - 1, gen = s\<rparr>"
    using assms by (simp add: P_def)
  then have "\<exists>p'. for_each (range_step (module_count s - 1) 0 (- 2)) (place_sweep d)
             \<lparr>bit_index = 0, direction = - 1, gen = s\<rparr> = Returned p' \<and> P p'"
  proof (rule for_each_ok)
    fix col0 assume "col0 \<in> set (range_step (module_count s - 1) 0 (- 2))"
    then have "0 < col0 \<and> col0 \<le> module_count s - 1"
      by (rule range_step_down_set) simp
    then show "preserves P (place_sweep d col0)"
      using n by (intro sweep_step) simp_all
  qed
  then show ?thesis by (auto simp: place_data_def P_def)
qed

lemma function_patterns_placed:
  assumes "grid_state base s2" and "\<forall>r c. in_grid base r c \<longrightarrow> \<not> cell s2 r c"
    and "module_count base = 4 * version base + 17" and "1 \<le> version base"
  shows "\<exists>s3 s4 s5 s6 s7.
           place_finder_patterns s2 = Returned s3 \<and> place_separators s3 = Returned s4
         \<and> place_timing_patterns s4 = Returned s5 \<and> place_dark_module s5 = Returned s6
         \<and> place_format_info s6 = Returned s7 \<and> grid_state base s7
         \<and> (\<forall>r c. in_grid base r c \<longrightarrow>
               cell s7 r c =
                 function_pattern (module_count base) (version base) (error_correction base) r c)"
proof -
  let ?n = "module_count base"
  have n: "21 \<le> ?n" "14 \<le> ?n" "7 \<le> ?n" using assms(3,4) by simp_all
  obtain s3 where s3: "place_finder_patterns s2 = Returned s3" "grid_state base s3"
    and c3: "\<forall>r c. in_grid base r c \<longrightarrow>
               cell s3 r c = (if finder_at ?n r c then True else cell s2 r c)"
    using writesD [OF place_finder_patterns_writes [OF n(2)] assms(1)] by blast
  obtain s4 where s4: "place_separators s3 = Returned s4" "grid_state base s4"
    and c4: "\<forall>r c. in_grid base r c \<longrightarrow>
               cell s4 r c = (if separator_at ?n r c then False else cell s3 r c)"
    using writesD [OF place_separators_writes [OF n(3)] s3(2)] by blast
  obtain s5 where s5: "place_timing_patterns s4 = Returned s5" "grid_state base s5"
    and c5: "\<forall>r c. in_grid base r c \<longrightarrow>
               cell s5 r c = (if timing_at ?n r c then (r + c) mod 2 = 0 else cell s4 r c)"
    using writesD [OF place_timing_patterns_writes s4(2)] by blast
  obtain s6 where s6: "place_dark_module s5 = Returned s6" "grid_state base s6"
    and c6: "\<forall>r c. in_grid base r c \<longrightarrow>
               cell s6 r c = (if dark_at ?n (version base) r c then True else cell s5 r c)"
    using writesD [OF place_dark_module_writes [OF assms(3,4)] s5(2)] by blast
  obtain s7 where s7: "place_format_info s6 = Returned s7" "grid_state base s7"
    and c7: "\<forall>r c. in_grid base r c \<longrightarrow>
               cell s7 r c = (if format_at ?n r c then format_value (error_correction base) ?n r c
                              else cell s6 r c)"
    using writesD [OF place_format_info_writes [OF n(1)] s6(2)] by blast
  have "cell s7 r c = function_pattern ?n (version base) (error_correction base) r c"
    if ig: "in_grid base r c" for r c
    using c3 [rule_format, OF ig] c4 [rule_format, OF ig] c5 [rule_format, OF ig]
      c6 [rule_format, OF ig] c7 [rule_format, OF ig] assms(2) [rule_format, OF ig]
    by (simp only: function_pattern_def if_False if_True split: if_split)
       simp
  then show ?thesis using s3 s4 s5 s6 s7 by blast
qed

lemma make_function_modules:
  assumes "data s \<noteq> []" and "utf8_encode (data s) = Inr bs"
    and "v = selected (int (length bs)) (error_correction s)"
    and "base = s\<lparr>version := v, module_count := 4 * v + 17\<rparr>"
  shows "\<exists>s'. make s = Returned s' \<and> grid_state base s'
           \<and> (\<forall>r c. in_grid base r c \<longrightarrow> is_function_module base r c \<longrightarrow>
                 cell s' r c = function_pattern (4 * v + 17) v (error_correction s) r c)"
proof -
  let ?s1 = "s\<lparr>version := v\<rparr>"
  have v: "v \<in> {1..5}" using assms(3) selected_range by simp
  have b: "module_count base = 4 * version base + 17" "1 \<le> version base"
    "version base = v" "module_count base = 4 * v + 17" "error_correction base = error_correction s"
    using v assms(4) by simp_all
  have o: "optimize_version s = Returned ?s1"
    using optimize_version_selected [OF assms(2)] assms(3) by simp
  obtain s2 where s2: "allocate ?s1 = Returned s2" "grid_state base s2"
    and c2: "\<forall>r c. in_grid base r c \<longrightarrow> \<not> cell s2 r c"
    using allocate_light [of ?s1] v assms(4) by auto
  obtain s3 s4 s5 s6 s7 where st: "place_finder_patterns s2 = Returned s3"
      "place_separators s3 = Returned s4" "place_timing_patterns s4 = Returned s5"
      "place_dark_module s5 = Returned s6" "place_format_info s6 = Returned s7"
    and s7: "grid_state base s7"
    and c7: "\<forall>r c. in_grid base r c \<longrightarrow>
               cell s7 r c =
                 function_pattern (module_count base) (version base) (error_correction base) r c"
    using function_patterns_placed [OF s2(2) c2 b(1,2)] by blast
  have "data s7 = data s" using grid_state_fields(4) [OF s7] assms(4) by simp
  then have e7: "encode_data s7 = Inr (fold append_bits bs (append_bits (int (length bs)) [0, 1, 0, 0]))"
    using assms(2) by (simp add: encode_data_def)
  have p7: "encode_and_place s7 =
      place_data (fold append_bits bs (append_bits (int (length bs)) [0, 1, 0, 0])) s7"
    by (simp add: encode_and_place_def e7 add_error_correction_def)
  obtain s8 where s8: "encode_and_place s7 = Returned s8" "grid_state base s8"
    and c8: "\<forall>r c. in_grid base r c \<longrightarrow> is_function_module base r c \<longrightarrow>
               cell s8 r c = cell s7 r c"
    unfolding p7 using place_data_frame [OF s7] by blast
  obtain s9 where s9: "apply_mask s8 = Returned s9" "grid_state base s9"
    and c9: "\<forall>r c. in_grid base r c \<longrightarrow>
               cell s9 r c = (if \<not> is_function_module base r c \<and> (r + c) mod 2 = 0
                              then \<not> cell s8 r c else cell s8 r c)"
    using apply_mask_cells [OF s8(2)] by blast
  have m: "make s = Returned s9"
    using assms(1) o s2(1) st s8(1) s9(1) by (simp add: make_def)
  have "cell s9 r c = function_pattern (4 * v + 17) v (error_correction s) r c"
    if ig: "in_grid base r c" and fm: "is_function_module base r c" for r c
    using c9 [rule_format, OF ig] c8 [rule_format, OF ig fm] c7 [rule_format, OF ig] fm
    by (simp add: b(3,4,5))
  then show ?thesis using m s9(2) by blast
qed

section \<open>The corners of a finished symbol\<close>

lemma function_pattern_top_left:
  assumes "21 \<le> n" "1 \<le> v" "0 \<le> r" "r \<le> 8" "0 \<le> c" "c \<le> 8"
  shows "function_pattern n v ecl r c = function_pattern 21 1 ecl r c"
proof -
  have "format_at n r c = format_at 21 r c" using assms by (auto simp: format_at_def)
  moreover have "format_value ecl n r c = format_value ecl 21 r c"
    using assms by (auto simp: format_value_def)
  moreover have "dark_at n v r c = dark_at 21 1 r c" using assms by (auto simp: dark_at_def)
  moreover have "timing_at n r c = timing_at 21 r c" using assms by (auto simp: timing_at_def)
  moreover have "separator_at n r c = separator_at 21 r c"
    using assms by (auto simp: separator_at_def edge_def)
  moreover have "finder_at n r c = finder_at 21 r c"
    using assms by (auto simp: finder_at_def finder_ring_def)
  ultimately show ?thesis by (simp only: function_pattern_def)
qed

lemma function_pattern_top_right:
  assumes "21 \<le> n" "1 \<le> v" "0 \<le> r" "r \<le> 8" "0 \<le> j" "j \<le> 7"
  shows "function_pattern n v ecl r (n - 8 + j) = function_pattern 21 1 ecl r (13 + j)"
proof -
  have "format_at n r (n - 8 + j) = format_at 21 r (13 + j)"
    using assms by (auto simp: format_at_def)
  moreover have "format_value ecl n r (n - 8 + j) = format_value ecl 21 r (13 + j)"
    using assms by (auto simp: format_value_def)
  moreover have "dark_at n v r (n - 8 + j) = dark_at 21 1 r (13 + j)"
    using assms by (auto simp: dark_at_def)
  moreover have "timing_at n r (n - 8 + j) = timing_at 21 r (13 + j)"
    using assms by (auto simp: timing_at_def)
  moreover have "separator_at n r (n - 8 + j) = separator_at 21 r (13 + j)"
    using assms by (auto simp: separator_at_def edge_def)
  moreover have "finder_at n r (n - 8 + j) = finder_at 21 r (13 + j)"
    using assms by (auto simp: finder_at_def finder_ring_def)
  moreover have "\<not> timing_at 21 r (13 + j)"
    using assms by (auto simp: timing_at_def)
  ultimately show ?thesis by (simp add: function_pattern_def)
qed

lemma function_pattern_bottom_left:
  assumes "21 \<le> n" "n = 4 * v + 17" "0 \<le> i" "i \<le> 7" "0 \<le> c" "c \<le> 8" "\<not> (i = 0 \<and> c = 8)"
  shows "function_pattern n v ecl (n - 8 + i) c = function_pattern 21 1 ecl (13 + i) c"
proof -
  have "format_at n (n - 8 + i) c = format_at 21 (13 + i) c"
    using assms by (auto simp: format_at_def)
  moreover have "format_value ecl n (n - 8 + i) c = format_value ecl 21 (13 + i) c"
    using assms by (auto simp: format_value_def)
  moreover have "dark_at n v (n - 8 + i) c = dark_at 21 1 (13 + i) c"
    using assms by (auto simp: dark_at_def)
  moreover have "timing_at n (n - 8 + i) c = timing_at 21 (13 + i) c"
    using assms by (auto simp: timing_at_def)
  moreover have "separator_at n (n - 8 + i) c = separator_at 21 (13 + i) c"
    using assms by (auto simp: separator_at_def edge_def)
  moreover have "finder_at n (n - 8 + i) c = finder_at 21 (13 + i) c"
    using assms by (auto simp: finder_at_def finder_ring_def)
  moreover have "\<not> timing_at 21 (13 + i) c"
    using assms by (auto simp: timing_at_def)
  ultimately show ?thesis by (simp add: function_pattern_def)
qed

lemma function_pattern_dark_module:
  assumes "n = 4 * v + 17" "1 \<le> v"
  shows "function_pattern n v ecl (n - 8) 8 \<longleftrightarrow> 1 < v"
  using assms
  by (auto simp: function_pattern_def format_at_def dark_at_def timing_at_def separator_at_def
        edge_def finder_at_def finder_ring_def)

lemma make_returned_payload:
  assumes "make s = Returned s'"
  shows "data s \<noteq> [] \<and> (\<exists>bs. utf8_encode (data s) = Inr bs)"
proof (cases "utf8_encode (data s)")
  case (Inl e)
  then show ?thesis using assms by (auto simp: make_def optimize_version_def split: if_splits)
next
  case (Inr bs)
  then show ?thesis using assms by (auto simp: make_def split: if_splits)
qed

lemma finished_symbol:
  assumes "make a = Returned s"
  shows "version s \<in> {1..5} \<and> module_count s = 4 * version s + 17
       \<and> error_correction s = error_correction a \<and> grid_state s s
       \<and> (\<forall>r c. in_grid s r c \<longrightarrow> is_function_module s r c \<longrightarrow>
             cell s r c = function_pattern (module_count s) (version s) (error_correction a) r c)"
proof -
  obtain bs where d: "data a \<noteq> []" and e: "utf8_encode (data a) = Inr bs"
    using make_returned_payload [OF assms] by blast
  define v where "v = selected (int (length bs)) (error_correction a)"
  define base where "base = a\<lparr>version := v, module_count := 4 * v + 17\<rparr>"
  obtain s' where s': "make a = Returned s'" "grid_state base s'"
    and c: "\<forall>r c. in_grid base r c \<longrightarrow> is_function_module base r c \<longrightarrow>
               cell s' r c = function_pattern (4 * v + 17) v (error_correction a) r c"
    using make_function_modules [OF d e v_def base_def] by blast
  have eq: "s' = s" using s'(1) assms by simp
  have v: "v \<in> {1..5}" unfolding v_def by (rule selected_range)
  have f: "module_count s = 4 * v + 17" "version s = v" "error_correction s = error_correction a"
    using grid_state_fields [OF s'(2)] by (simp_all add: eq base_def)
  obtain g where "modules s = Some g" "square_grid (module_count base) g"
    using grid_state_modules [OF s'(2)] eq by blast
  then have gs: "grid_state s s"
    using f(1) by (intro consistent_grid_state) (simp_all add: base_def)
  have ig: "in_grid s r c = in_grid base r c" for r c
    by (simp add: in_grid_def f(1) base_def)
  have fm: "is_function_module s r c = is_function_module base r c" for r c
    by (simp add: is_function_module_def f(1,2) base_def)
  show ?thesis
    using v f gs c by (simp add: ig fm eq)
qed

lemma finished_is_dark:
  assumes "make a = Returned s" and "in_grid s r c" and "is_function_module s r c"
  shows "is_dark s r c =
           Inr (function_pattern (module_count s) (version s) (error_correction a) r c)"
  using finished_symbol [OF assms(1)] is_dark_grid [of s r c] assms(2,3) by simp

lemma top_left_is_dark:
  assumes "make a = Returned s" and "0 \<le> r" "r \<le> 8" "0 \<le> c" "c \<le> 8"
  shows "is_dark s r c = Inr (function_pattern 21 1 (error_correction a) r c)"
proof -
  have f: "version s \<in> {1..5}" "module_count s = 4 * version s + 17"
    using finished_symbol [OF assms(1)] by simp_all
  then have n: "21 \<le> module_count s" "1 \<le> version s" by simp_all
  have "is_dark s r c =
      Inr (function_pattern (module_count s) (version s) (error_correction a) r c)"
    using assms(2-) n by (intro finished_is_dark [OF assms(1)])
      (simp_all add: in_grid_def is_function_module_def)
  then show ?thesis
    using function_pattern_top_left [OF n assms(2-)] by simp
qed

lemma top_right_is_dark:
  assumes "make a = Returned s" and "0 \<le> r" "r \<le> 8" "0 \<le> j" "j \<le> 7"
  shows "is_dark s r (module_count s - 8 + j) =
           Inr (function_pattern 21 1 (error_correction a) r (13 + j))"
proof -
  have f: "version s \<in> {1..5}" "module_count s = 4 * version s + 17"
    using finished_symbol [OF assms(1)] by simp_all
  then have n: "21 \<le> module_count s" "1 \<le> version s" by simp_all
  have "is_dark s r (module_count s - 8 + j) =
      Inr (function_pattern (module_count s) (version s) (error_correction a) r
             (module_count s - 8 + j))"
    using assms(2-) n by (intro finished_is_dark [OF assms(1)])
      (simp_all add: in_grid_def is_function_module_def)
  then show ?thesis
    using function_pattern_top_right [OF n assms(2-)] by simp
qed

lemma bottom_left_is_dark:
  assumes "make a = Returned s" and "0 \<le> i" "i \<le> 7" "0 \<le> c" "c \<le> 8" "\<not> (i = 0 \<and> c = 8)"
  shows "is_dark s (module_count s - 8 + i) c =
           Inr (function_pattern 21 1 (error_correction a) (13 + i) c)"
proof -
  have f: "version s \<in> {1..5}" "module_count s = 4 * version s + 17"
    using finished_symbol [OF assms(1)] by simp_all
  then have n: "21 \<le> module_count s" "1 \<le> version s" by simp_all
  have "is_dark s (module_count s - 8 + i) c =
      Inr (function_pattern (module_count s) (version s) (error_correction a)
             (module_count s - 8 + i) c)"
    using assms(2-) n by (intro finished_is_dark [OF assms(1)])
      (simp_all add: in_grid_def is_function_module_def)
  then show ?thesis
    using function_pattern_bottom_left [OF n(1) f(2) assms(2-)] by simp
qed

lemma dark_module_is_dark:
  assumes "make a = Returned s"
  shows "is_dark s (module_count s - 8) 8 = Inr (1 < version s)"
proof -
  have f: "version s \<in> {1..5}" "module_count s = 4 * version s + 17"
    using finished_symbol [OF assms(1)] by simp_all
  then have n: "21 \<le> module_count s" "1 \<le> version s" by simp_all
  have "is_dark s (module_count s - 8) 8 =
      Inr (function_pattern (module_count s) (version s) (error_correction a)
             (module_count s - 8) 8)"
    using n by (intro finished_is_dark [OF assms(1)])
      (simp_all add: in_grid_def is_function_module_def)
  then show ?thesis
    using function_pattern_dark_module [OF f(2) n(2)] by simp
qed

section \<open>The shapes that the renderers draw\<close>

lemma image_module_shape:
  assumes "grid_state s s"
  shows "image_module s color marker_shape dot_shape (module_count s) row col img =
           Returned (if in_grid s row col \<and> cell s row col
                     then img @ [shape_drawing
                                   (if finder_footprint (module_count s) row col
                                    then marker_shape else dot_shape) row col color]
                     else img)"
proof -
  define b where "b \<longleftrightarrow> in_grid s row col \<and> cell s row col"
  define sh where
    "sh = (if finder_footprint (module_count s) row col then marker_shape else dot_shape)"
  have dk: "is_dark s row col = Inr b"
    unfolding b_def by (rule is_dark_grid [OF assms])
  show ?thesis
  proof (cases b)
    case True
    then have "((row < 7 \<and> col < 7) \<or> (row < 7 \<and> col \<ge> module_count s - 7)
        \<or> (row \<ge> module_count s - 7 \<and> col < 7)) = finder_footprint (module_count s) row col"
      by (auto simp: finder_footprint_def in_grid_def b_def)
    then have "image_module s color marker_shape dot_shape (module_count s) row col img =
        (if sh = ''circle'' then Returned (img @ [Ellipse row col color])
         else if sh = ''rounded'' then Returned (img @ [RoundedRectangle row col color])
         else Returned (img @ [Rectangle row col color]))"
      using True unfolding image_module_def dk Let_def sh_def by simp
    also have "\<dots> = Returned (img @ [shape_drawing sh row col color])"
      by (simp only: shape_drawing_def if_distrib [of Returned] if_distrib [of "\<lambda>x. img @ [x]"]
            if_distrib [of "\<lambda>x. [x]"] if_distrib [of "(@) img"])
    finally show ?thesis
      using True unfolding b_def [symmetric] sh_def by simp
  next
    case False
    then have "image_module s color marker_shape dot_shape (module_count s) row col img
        = Returned img"
      unfolding image_module_def dk by simp
    then show ?thesis
      using False unfolding b_def [symmetric] by simp
  qed
qed

lemma image_cols_shape:
  assumes "grid_state s s"
  shows "\<exists>img'. for_each cs (image_module s color marker_shape dot_shape (module_count s) row) img
                  = Returned img'
           \<and> set img' = set img
               \<union> {shape_drawing (if finder_footprint (module_count s) row c
                                   then marker_shape else dot_shape) row c color
                  |c. c \<in> set cs \<and> in_grid s row c \<and> cell s row c}"
proof (induction cs arbitrary: img)
  case Nil
  then show ?case by simp
next
  case (Cons c0 cs)
  define img1 where "img1 = (if in_grid s row c0 \<and> cell s row c0
      then img @ [shape_drawing (if finder_footprint (module_count s) row c0
                                  then marker_shape else dot_shape) row c0 color]
      else img)"
  have s1: "image_module s color marker_shape dot_shape (module_count s) row c0 img = Returned img1"
    unfolding img1_def by (rule image_module_shape [OF assms])
  have m1: "set img1 = set img
      \<union> {shape_drawing (if finder_footprint (module_count s) row c
                          then marker_shape else dot_shape) row c color
         |c. c = c0 \<and> in_grid s row c \<and> cell s row c}"
    by (auto simp: img1_def)
  obtain img' where i':
      "for_each cs (image_module s color marker_shape dot_shape (module_count s) row) img1
         = Returned img'"
      "set img' = set img1
         \<union> {shape_drawing (if finder_footprint (module_count s) row c
                             then marker_shape else dot_shape) row c color
            |c. c \<in> set cs \<and> in_grid s row c \<and> cell s row c}"
    using Cons.IH [of img1] by blast
  have "set img' = set img
      \<union> {shape_drawing (if finder_footprint (module_count s) row c
                          then marker_shape else dot_shape) row c color
         |c. c \<in> set (c0 # cs) \<and> in_grid s row c \<and> cell s row c}"
    unfolding i'(2) m1 by auto
  then show ?case using s1 i'(1) by simp
qed

lemma image_rows_shape:
  assumes "grid_state s s"
  shows "\<exists>img'. for_each rs (\<lambda>row. for_each cs
                    (image_module s color marker_shape dot_shape (module_count s) row)) img
                  = Returned img'
           \<and> set img' = set img
               \<union> {shape_drawing (if finder_footprint (module_count s) r c
                                   then marker_shape else dot_shape) r c color
                  |r c. r \<in> set rs \<and> c \<in> set cs \<and> in_grid s r c \<and> cell s r c}"
proof (induction rs arbitrary: img)
  case Nil
  then show ?case by simp
next
  case (Cons r0 rs)
  obtain img1 where i1:
      "for_each cs (image_module s color marker_shape dot_shape (module_count s) r0) img
         = Returned img1"
      "set img1 = set img
         \<union> {shape_drawing (if finder_footprint (module_count s) r0 c
                             then marker_shape else dot_shape) r0 c color
            |c. c \<in> set cs \<and> in_grid s r0 c \<and> cell s r0 c}"
    using image_cols_shape [OF assms] by blast
  obtain img' where i':
      "for_each rs (\<lambda>row. for_each cs
          (image_module s color marker_shape dot_shape (module_count s) row)) img1
         = Returned img'"
      "set img' = set img1
         \<union> {shape_drawing (if finder_footprint (module_count s) r c
                             then marker_shape else dot_shape) r c color
            |r c. r \<in> set rs \<and> c \<in> set cs \<and> in_grid s r c \<and> cell s r c}"
    using Cons.IH [of img1] by blast
  have "set img' = set img
      \<union> {shape_drawing (if finder_footprint (module_count s) r c
                          then marker_shape else dot_shape) r c color
         |r c. r \<in> set (r0 # rs) \<and> c \<in> set cs \<and> in_grid s r c \<and> cell s r c}"
    unfolding i'(2) i1(2) by auto
  then show ?case using i1(1) i'(1) by simp
qed

lemma image_of_modules: "f ` {g r c |r c. P r c} = {f (g r c) |r c. P r c}"
  by blast

lemma as_svg_shape: "as_svg (shape_drawing shape r c fill) = shape_element shape r c fill"
  by (simp add: shape_drawing_def shape_element_def)

lemma renderers_shapes_on_grid:
  assumes "grid_state s s" and "module_count s \<noteq> 0"
  shows "\<exists>img logo svg.
           create_qr_image getrgb open_logo s color marker_shape dot_shape logo_text
             = Inr (img, logo)
         \<and> create_qr_svg getrgb s color marker_shape dot_shape = Inr svg
         \<and> svg = map as_svg img
         \<and> set img =
             {shape_drawing (if finder_footprint (module_count s) r c
                             then marker_shape else dot_shape) r c
                (if getrgb color then color else ''#000000'')
              |r c. in_grid s r c \<and> cell s r c}
         \<and> set svg =
             {shape_element (if finder_footprint (module_count s) r c
                             then marker_shape else dot_shape) r c
                (if getrgb color then color else ''#000000'')
              |r c. in_grid s r c \<and> cell s r c}"
proof -
  define fill where "fill = (if getrgb color then color else ''#000000'')"
  define n where "n = module_count s"
  obtain img where img: "for_each (py_range 0 n) (\<lambda>row. for_each (py_range 0 n)
        (image_module s fill marker_shape dot_shape n row)) [] = Returned img"
      "set img = set ([] :: drawing list)
         \<union> {shape_drawing (if finder_footprint n r c then marker_shape else dot_shape) r c fill
            |r c. r \<in> set (py_range 0 n) \<and> c \<in> set (py_range 0 n)
                \<and> in_grid s r c \<and> cell s r c}"
    unfolding n_def
    using image_rows_shape [OF assms(1), where img = "[]" and color = fill
        and rs = "py_range 0 (module_count s)" and cs = "py_range 0 (module_count s)"
        and marker_shape = marker_shape and dot_shape = dot_shape]
    by blast
  have m: "set img =
      {shape_drawing (if finder_footprint n r c then marker_shape else dot_shape) r c fill
       |r c. in_grid s r c \<and> cell s r c}"
    unfolding img(2) by (auto simp: py_range_set in_grid_def n_def)
  have i: "create_qr_image getrgb open_logo s color marker_shape dot_shape logo_text
             = Inr (img, case logo_text of None \<Rightarrow> None
                         | Some l \<Rightarrow> if l = [] then None else open_logo l)"
    using assms(2) img(1)
    by (simp add: create_qr_image_def get_module_count_def fill_def [symmetric] n_def [symmetric])
  have v: "create_qr_svg getrgb s color marker_shape dot_shape = Inr (map as_svg img)"
    using create_qr_svg_follows_create_qr_image [where getrgb = getrgb
        and open_logo = open_logo and qr = s and color = color and marker_shape = marker_shape
        and dot_shape = dot_shape and logo_text = logo_text]
    unfolding i by simp
  have "set (map as_svg img) = as_svg ` set img" by simp
  also have "\<dots> =
      {shape_element (if finder_footprint n r c then marker_shape else dot_shape) r c fill
       |r c. in_grid s r c \<and> cell s r c}"
    unfolding m image_of_modules as_svg_shape ..
  finally have e: "set (map as_svg img) =
      {shape_element (if finder_footprint n r c then marker_shape else dot_shape) r c fill
       |r c. in_grid s r c \<and> cell s r c}" .
  show ?thesis
  proof (intro exI conjI)
    show "create_qr_image getrgb open_logo s color marker_shape dot_shape logo_text
        = Inr (img, case logo_text of None \<Rightarrow> None
                    | Some l \<Rightarrow> if l = [] then None else open_logo l)"
      by (rule i)
    show "create_qr_svg getrgb s color marker_shape dot_shape = Inr (map as_svg img)"
      by (rule v)
    show "map as_svg img = map as_svg img" ..
    show "set img =
        {shape_drawing (if finder_footprint (module_count s) r c
                        then marker_shape else dot_shape) r c
           (if getrgb color then color else ''#000000'')
         |r c. in_grid s r c \<and> cell s r c}"
      using m unfolding n_def fill_def .
    show "set (map as_svg img) =
        {shape_element (if finder_footprint (module_count s) r c
                        then marker_shape else dot_shape) r c
           (if getrgb color then color else ''#000000'')
         |r c. in_grid s r c \<and> cell s r c}"
      using e unfolding n_def fill_def .
  qed
qed

text \<open>
  C7. For every generator and every configuration the vector renderer returns the raster
  renderer's primitives, each replaced by the vector primitive of the same module, shape
  variant and fill, in the same order, and raises the same exception when the raster
  renderer raises. On a finished symbol both return, and what each draws is exactly one
  primitive for every dark module of the grid: of the marker shape when the module lies in
  one of the three 7x7 corner footprints (rows and columns 0-6 and the last seven), of the
  dot shape otherwise.
\<close>

theorem renderers_draw_the_same_modules:
  "(case create_qr_image getrgb open_logo s color marker_shape dot_shape logo_text of
      Inl e \<Rightarrow> create_qr_svg getrgb s color marker_shape dot_shape = Inl e
    | Inr (img, logo) \<Rightarrow>
        create_qr_svg getrgb s color marker_shape dot_shape = Inr (map as_svg img))
   \<and> (reachable s \<and> module_count s \<noteq> 0 \<longrightarrow>
        (\<exists>img logo svg.
            create_qr_image getrgb open_logo s color marker_shape dot_shape logo_text
              = Inr (img, logo)
          \<and> create_qr_svg getrgb s color marker_shape dot_shape = Inr svg
          \<and> svg = map as_svg img
          \<and> set img =
              {shape_drawing (if finder_footprint (module_count s) r c
                              then marker_shape else dot_shape) r c
                 (if getrgb color then color else ''#000000'')
               |r c. in_grid s r c \<and> cell s r c}
          \<and> set svg =
              {shape_element (if finder_footprint (module_count s) r c
                              then marker_shape else dot_shape) r c
                 (if getrgb color then color else ''#000000'')
               |r c. in_grid s r c \<and> cell s r c}))"
proof (intro conjI impI)
  show "(case create_qr_image getrgb open_logo s color marker_shape dot_shape logo_text of
      Inl e \<Rightarrow> create_qr_svg getrgb s color marker_shape dot_shape = Inl e
    | Inr (img, logo) \<Rightarrow>
        create_qr_svg getrgb s color marker_shape dot_shape = Inr (map as_svg img))"
    by (rule create_qr_svg_follows_create_qr_image)
next
  assume a: "reachable s \<and> module_count s \<noteq> 0"
  then have n: "module_count s \<noteq> 0" and r: "reachable s" by simp_all
  have gs: "grid_state s s" using r n by (rule reachable_grid_state)
  show "\<exists>img logo svg.
            create_qr_image getrgb open_logo s color marker_shape dot_shape logo_text
              = Inr (img, logo)
          \<and> create_qr_svg getrgb s color marker_shape dot_shape = Inr svg
          \<and> svg = map as_svg img
          \<and> set img =
              {shape_drawing (if finder_footprint (module_count s) r c
                              then marker_shape else dot_shape) r c
                 (if getrgb color then color else ''#000000'')
               |r c. in_grid s r c \<and> cell s r c}
          \<and> set svg =
              {shape_element (if finder_footprint (module_count s) r c
                              then marker_shape else dot_shape) r c
                 (if getrgb color then color else ''#000000'')
               |r c. in_grid s r c \<and> cell s r c}"
    by (rule renderers_shapes_on_grid [OF gs n])
qed

text \<open>
  On the version 1 symbol of the payload \<^verbatim>\<open>Hi\<close> with marker shape \<^verbatim>\<open>circle\<close> and dot
  shape \<^verbatim>\<open>square\<close>: the corner module (0, 0) is drawn as a circle; the timing module
  (6, 8), dark and next to the top-left finder pattern but outside its 7x7 footprint, is
  drawn as a square and not as a circle.
\<close>

theorem renderers_draw_the_same_modules_witness:
  "\<exists>s' img logo svg.
      make (add_data [72, 105] (init 1 H)) = Returned s'
    \<and> reachable s' \<and> module_count s' \<noteq> 0
    \<and> create_qr_image (\<lambda>c. True) (\<lambda>l. None :: unit option) s'
         ''#ff0000'' ''circle'' ''square'' None = Inr (img, logo)
    \<and> create_qr_svg (\<lambda>c. True) s' ''#ff0000'' ''circle'' ''square'' = Inr svg
    \<and> svg = map as_svg img
    \<and> Ellipse 0 0 ''#ff0000'' \<in> set img \<and> Circle 0 0 ''#ff0000'' \<in> set svg
    \<and> Rectangle 6 8 ''#ff0000'' \<in> set img \<and> Rect 6 8 ''#ff0000'' \<in> set svg
    \<and> Ellipse 6 8 ''#ff0000'' \<notin> set img \<and> Circle 6 8 ''#ff0000'' \<notin> set svg"
proof -
  let ?a = "add_data [72, 105] (init 1 H)"
  have d: "data ?a \<noteq> []" by (simp add: add_data_def)
  have e: "utf8_encode (data ?a) = Inr [72, 105]" by (simp add: add_data_def utf8_char_def)
  have sel: "selected (int (length [72, 105 :: int])) (error_correction ?a) = 1"
    by (simp add: selected_def optimize_loop_unfold fits_def version_info_def add_data_def init_def)
  obtain s' where s': "make ?a = Returned s'"
    "grid_state (?a\<lparr>version := 1, module_count := 4 * 1 + 17\<rparr>) s'"
    using make_ok [OF d e refl] unfolding sel by blast
  have n: "module_count s' = 21" using grid_state_fields(1) [OF s'(2)] by simp
  have r: "reachable s'"
    using reachable_make [OF reachable_add_data [OF reachable_init] s'(1)] .
  have rn: "reachable s' \<and> module_count s' \<noteq> 0" using r n by simp
  have gs: "grid_state s' s'" using r n by (intro reachable_grid_state) simp_all
  have l: "error_correction ?a = H" by (simp add: add_data_def init_def)
  have "is_dark s' 0 0 = Inr (function_pattern 21 1 H 0 0)"
    using top_left_is_dark [OF s'(1), of 0 0] l by simp
  then have c00: "in_grid s' 0 0 \<and> cell s' 0 0"
    unfolding is_dark_grid [OF gs]
    by (simp add: function_pattern_def format_at_def dark_at_def timing_at_def separator_at_def
          edge_def finder_at_def finder_ring_def)
  have "is_dark s' 6 8 = Inr (function_pattern 21 1 H 6 8)"
    using top_left_is_dark [OF s'(1), of 6 8] l by simp
  then have c68: "in_grid s' 6 8 \<and> cell s' 6 8"
    unfolding is_dark_grid [OF gs]
    by (simp add: function_pattern_def format_at_def dark_at_def timing_at_def)
  define mk where "mk = ''circle''"
  define dt where "dt = ''square''"
  define red where "red = ''#ff0000''"
  define DI where
    "DI = {shape_drawing (if finder_footprint 21 r c then mk else dt) r c red
           |r c. in_grid s' r c \<and> cell s' r c}"
  define DV where
    "DV = {shape_element (if finder_footprint 21 r c then mk else dt) r c red
           |r c. in_grid s' r c \<and> cell s' r c}"
  have t: "\<exists>img logo svg.
      create_qr_image (\<lambda>c. True) (\<lambda>l. None :: unit option) s' red mk dt None = Inr (img, logo)
    \<and> create_qr_svg (\<lambda>c. True) s' red mk dt = Inr svg
    \<and> svg = map as_svg img \<and> set img = DI \<and> set svg = DV"
    using renderers_draw_the_same_modules [where getrgb = "\<lambda>c. True"
        and open_logo = "\<lambda>l. None :: unit option" and s = s' and color = red
        and marker_shape = mk and dot_shape = dt and logo_text = None,
        THEN conjunct2, rule_format, OF rn]
    unfolding n DI_def DV_def if_True .
  then obtain img logo svg where o:
      "create_qr_image (\<lambda>c. True) (\<lambda>l. None :: unit option) s' red mk dt None = Inr (img, logo)"
      "create_qr_svg (\<lambda>c. True) s' red mk dt = Inr svg"
      "svg = map as_svg img"
      and si: "set img = DI" and sv: "set svg = DV"
    by blast
  have f: "finder_footprint 21 0 0" "\<not> finder_footprint 21 6 8"
    by (simp_all add: finder_footprint_def)
  have cd: "mk \<noteq> dt" by (simp add: mk_def dt_def)
  have di: "shape_drawing (if finder_footprint 21 r c then mk else dt) r c red \<in> DI"
    if "in_grid s' r c \<and> cell s' r c" for r c
    unfolding DI_def using that by blast
  have dv: "shape_element (if finder_footprint 21 r c then mk else dt) r c red \<in> DV"
    if "in_grid s' r c \<and> cell s' r c" for r c
    unfolding DV_def using that by blast
  have i1: "Ellipse 0 0 red \<in> set img"
    using di [OF c00] f(1) unfolding si by (simp add: shape_drawing_def mk_def)
  have i2: "Rectangle 6 8 red \<in> set img"
    using di [OF c68] f(2) unfolding si by (simp add: shape_drawing_def dt_def)
  have v1: "Circle 0 0 red \<in> set svg"
    using dv [OF c00] f(1) unfolding sv by (simp add: shape_element_def mk_def)
  have v2: "Rect 6 8 red \<in> set svg"
    using dv [OF c68] f(2) unfolding sv by (simp add: shape_element_def dt_def)
  have i3: "Ellipse 6 8 red \<notin> set img"
  proof
    assume "Ellipse 6 8 red \<in> set img"
    then obtain r c where
      "Ellipse 6 8 red = shape_drawing (if finder_footprint 21 r c then mk else dt) r c red"
      unfolding si DI_def by blast
    then show False
      using f(2) by (cases "finder_footprint 21 r c") (simp_all add: shape_drawing_def mk_def dt_def)
  qed
  have v3: "Circle 6 8 red \<notin> set svg"
  proof
    assume "Circle 6 8 red \<in> set svg"
    then obtain r c where
      "Circle 6 8 red = shape_element (if finder_footprint 21 r c then mk else dt) r c red"
      unfolding sv DV_def by blast
    then show False
      using f(2) by (cases "finder_footprint 21 r c") (simp_all add: shape_element_def mk_def dt_def)
  qed
  show ?thesis
  proof (intro exI [of _ s'] exI [of _ img] exI [of _ logo] exI [of _ svg] conjI)
    show "make ?a = Returned s'" by (rule s'(1))
    show "reachable s'" by (rule r)
    show "module_count s' \<noteq> 0" using n by simp
    show "create_qr_image (\<lambda>c. True) (\<lambda>l. None :: unit option) s'
         ''#ff0000'' ''circle'' ''square'' None = Inr (img, logo)"
      using o(1) unfolding mk_def dt_def red_def .
    show "create_qr_svg (\<lambda>c. True) s' ''#ff0000'' ''circle'' ''square'' = Inr svg"
      using o(2) unfolding mk_def dt_def red_def .
    show "svg = map as_svg img" by (rule o(3))
    show "Ellipse 0 0 ''#ff0000'' \<in> set img" using i1 unfolding red_def .
    show "Circle 0 0 ''#ff0000'' \<in> set svg" using v1 unfolding red_def .
    show "Rectangle 6 8 ''#ff0000'' \<in> set img" using i2 unfolding red_def .
    show "Rect 6 8 ''#ff0000'' \<in> set svg" using v2 unfolding red_def .
    show "Ellipse 6 8 ''#ff0000'' \<notin> set img" using i3 unfolding red_def .
    show "Circle 6 8 ''#ff0000'' \<notin> set svg" using v3 unfolding red_def .
  qed
qed

section \<open>One payload and one level under every constructor version\<close>





end
